theory Spec2Isabelle
  imports Main "HOL-Library.Word"
begin

unbundle bit_operations_syntax

section \<open>Data model\<close>

text \<open>
  A \<^verbatim>\<open>Uint8Array\<close> is a list of 8-bit words. Lengths, block sizes and section sizes
  are JavaScript numbers holding non-negative integers and are modelled as \<open>nat\<close>;
  a number that may be negative is an \<open>int\<close>; the value \<^verbatim>\<open>NaN\<close> is \<open>None\<close> of an
  option. A \<^verbatim>\<open>BigInt\<close> of the source is never negative and is a \<open>nat\<close>.
  Every \<^verbatim>\<open>throw\<close> of the source is a constructor of \<open>error\<close>, and a function
  that can throw returns \<open>error + 'a\<close>.
\<close>

type_synonym byte = "8 word"
type_synonym bytes = "byte list"

datatype error =
    HexOddLength nat
  | HexNonHexCharacter nat
  | RangeError
  | PaddingMarkerNotFound
  | InvalidPaddingNonZero
  | InvalidIVSize
  | TooBigData
  | OnlyBlockSize64or128
  | InvalidTagSize
  | PlaintextOrAdditionalRequired
  | PlaintextAdditionalTooBig
  | InvalidAuthenticationTag
  | SyntaxError
  | ZeroBlockSizeLoop

subsection \<open>Typed-array and number primitives of the runtime\<close>

text \<open>\<^verbatim>\<open>a % b\<close> on non-negative integers: \<^verbatim>\<open>NaN\<close> when \<open>b\<close> is 0.\<close>

definition jsmod :: "nat \<Rightarrow> nat \<Rightarrow> nat option" where
  "jsmod a b = (if b = 0 then None else Some (a mod b))"

text \<open>\<^verbatim>\<open>x | 0\<close>: the 32-bit two's complement reading of an integer (ToInt32).\<close>

definition toInt32 :: "int \<Rightarrow> int" where
  "toInt32 x = (let m = x mod 2 ^ 32 in if m \<ge> 2 ^ 31 then m - 2 ^ 32 else m)"

text \<open>The relative index of \<^verbatim>\<open>subarray\<close> and \<^verbatim>\<open>slice\<close>: a negative index counts from
  the end, and the result is clamped to the array.\<close>

definition relativeIndex :: "int \<Rightarrow> nat \<Rightarrow> nat" where
  "relativeIndex i len = (if i < 0 then nat (max (int len + i) 0) else min (nat i) len)"

definition subarray :: "bytes \<Rightarrow> int \<Rightarrow> int \<Rightarrow> bytes" where
  "subarray a b e =
     (let first = relativeIndex b (length a); final = relativeIndex e (length a)
      in take (final - first) (drop first a))"

definition subarray_from :: "bytes \<Rightarrow> int \<Rightarrow> bytes" where
  "subarray_from a b = drop (relativeIndex b (length a)) a"

text \<open>\<^verbatim>\<open>target.set(source, offset)\<close> throws a RangeError when the source does not fit.\<close>

definition typed_set :: "bytes \<Rightarrow> bytes \<Rightarrow> nat \<Rightarrow> error + bytes" where
  "typed_set target source offset =
     (if offset + length source > length target then Inl RangeError
      else Inr (take offset target @ source @ drop (offset + length source) target))"

definition newUint8Array :: "nat \<Rightarrow> bytes" where
  "newUint8Array n = replicate n 0"

section \<open>Padding (index.ts)\<close>

definition getPadLength :: "nat \<Rightarrow> nat \<Rightarrow> nat option" where
  "getPadLength dataLength blockSize =
     (if dataLength < blockSize then Some (blockSize - dataLength)
      else if jsmod dataLength blockSize = Some 0 then Some 0
      else map_option (\<lambda>r. blockSize - r) (jsmod dataLength blockSize))"

text \<open>\<^verbatim>\<open>new Uint8Array(n)\<close> with \<open>n\<close> = \<^verbatim>\<open>NaN\<close> has length 0.\<close>

definition paddedLength :: "nat \<Rightarrow> nat option \<Rightarrow> nat" where
  "paddedLength n padLength = (case padLength of None \<Rightarrow> 0 | Some k \<Rightarrow> n + k)"

definition pad1 :: "bytes \<Rightarrow> nat \<Rightarrow> error + bytes" where
  "pad1 data blockSize =
     typed_set (newUint8Array (paddedLength (length data) (getPadLength (length data) blockSize)))
       data 0"

definition pad2 :: "bytes \<Rightarrow> nat \<Rightarrow> error + bytes" where
  "pad2 data blockSize =
     (case typed_set
             (newUint8Array
                (paddedLength (length data + 1) (getPadLength (length data + 1) blockSize)))
             data 0 of
        Inl e \<Rightarrow> Inl e
      | Inr padded \<Rightarrow> Inr (padded[length data := 0x80]))"

text \<open>The first loop of \<^verbatim>\<open>unpad2\<close>: \<open>i\<close> runs from the end of the last block down to 0
  and stops at the first byte 0x80; \<open>-1\<close> when there is none.\<close>

fun findPadIndex :: "bytes \<Rightarrow> nat \<Rightarrow> int" where
  "findPadIndex lastBlock 0 = -1"
| "findPadIndex lastBlock (Suc i) =
     (if lastBlock ! i = 0x80 then int i else findPadIndex lastBlock i)"

text \<open>The second loop: every byte after the marker must be 0.\<close>

fun zerosAfter :: "bytes \<Rightarrow> bool" where
  "zerosAfter [] = True"
| "zerosAfter (b # rest) = (if b \<noteq> 0 then False else zerosAfter rest)"

definition unpad2 :: "bytes \<Rightarrow> nat \<Rightarrow> error + bytes" where
  "unpad2 data blockSize =
     (let lastBlock = subarray_from data (int (length data) - int blockSize);
          padIndex = findPadIndex lastBlock (length lastBlock)
      in if padIndex = -1 then Inl PaddingMarkerNotFound
         else if \<not> zerosAfter (drop (nat (padIndex + 1)) lastBlock) then Inl InvalidPaddingNonZero
         else Inr (subarray data 0 (int (length data) - (int blockSize - padIndex))))"

definition pad3 :: "bytes \<Rightarrow> nat \<Rightarrow> error + bytes" where
  "pad3 data blockSize =
     (if getPadLength (length data) blockSize = Some 0 then Inr data else pad2 data blockSize)"

section \<open>Byte utilities (utils.ts)\<close>

definition KEYSIZE :: nat where
  "KEYSIZE = 32"

definition xor_bytes :: "bytes \<Rightarrow> bytes \<Rightarrow> bytes" where
  "xor_bytes a b = map (\<lambda>(x, y). x XOR y) (zip a b)"

definition concatBytes :: "bytes list \<Rightarrow> bytes" where
  "concatBytes arrays = concat arrays"

text \<open>\<^verbatim>\<open>x[0]\<close> read for a bit operation: \<^verbatim>\<open>undefined\<close>, on an empty array, counts as 0.\<close>

definition byte0 :: "bytes \<Rightarrow> byte" where
  "byte0 a = (case a of [] \<Rightarrow> 0 | b # rest \<Rightarrow> b)"

text \<open>\<^verbatim>\<open>x << k\<close> on BigInt: a negative \<open>k\<close> shifts to the right.\<close>

definition shiftLeft :: "nat \<Rightarrow> int \<Rightarrow> nat" where
  "shiftLeft x k = (if 0 \<le> k then push_bit (nat k) x else drop_bit (nat (- k)) x)"

text \<open>\<^verbatim>\<open>n.toString(16)\<close> of a non-negative integer: its hexadecimal digits, lower case,
  no leading zero, \<^verbatim>\<open>"0"\<close> for 0. \<^verbatim>\<open>s.padStart(n, c)\<close> leaves a string of length
  \<open>n\<close> or more as it is.\<close>

definition hexDigit :: "nat \<Rightarrow> char" where
  "hexDigit d = ''0123456789abcdef'' ! d"

fun toString16 :: "nat \<Rightarrow> string" where
  "toString16 n = (if n < 16 then [hexDigit n] else toString16 (n div 16) @ [hexDigit (n mod 16)])"

declare toString16.simps [simp del]

definition padStart :: "string \<Rightarrow> int \<Rightarrow> char \<Rightarrow> string" where
  "padStart s targetLength c = replicate (nat targetLength - length s) c @ s"

definition asciiToBase16 :: "nat \<Rightarrow> nat option" where
  "asciiToBase16 ch =
     (if 48 \<le> ch \<and> ch \<le> 57 then Some (ch - 48)
      else if 65 \<le> ch \<and> ch \<le> 70 then Some (ch - (65 - 10))
      else if 97 \<le> ch \<and> ch \<le> 102 then Some (ch - (97 - 10))
      else None)"

fun hexToBytes_loop :: "string \<Rightarrow> nat \<Rightarrow> error + bytes" where
  "hexToBytes_loop (c1 # c2 # rest) hi =
     (case asciiToBase16 (of_char c1) of
        None \<Rightarrow> Inl (HexNonHexCharacter hi)
      | Some n1 \<Rightarrow>
          (case asciiToBase16 (of_char c2) of
             None \<Rightarrow> Inl (HexNonHexCharacter hi)
           | Some n2 \<Rightarrow>
               (case hexToBytes_loop rest (hi + 2) of
                  Inl e \<Rightarrow> Inl e
                | Inr array \<Rightarrow> Inr (of_nat (n1 * 16 + n2) # array))))"
| "hexToBytes_loop rest hi = Inr []"

definition hexToBytes :: "string \<Rightarrow> error + bytes" where
  "hexToBytes hex =
     (if length hex mod 2 \<noteq> 0 then Inl (HexOddLength (length hex)) else hexToBytes_loop hex 0)"

definition hexes :: "byte \<Rightarrow> string" where
  "hexes b = padStart (toString16 (unat b)) 2 (CHR ''0'')"

definition bytesToHex :: "bytes \<Rightarrow> string" where
  "bytesToHex a = concat (map hexes a)"

definition numberToBytesBE :: "nat \<Rightarrow> int \<Rightarrow> error + bytes" where
  "numberToBytesBE n len = hexToBytes (padStart (toString16 n) (len * 2) (CHR ''0''))"

text \<open>\<^verbatim>\<open>BigInt('0x' + hex)\<close>: the number the hexadecimal digits denote; a SyntaxError
  on any other character.\<close>

fun bigIntOfHex :: "string \<Rightarrow> nat \<Rightarrow> error + nat" where
  "bigIntOfHex [] acc = Inr acc"
| "bigIntOfHex (c # rest) acc =
     (case asciiToBase16 (of_char c) of
        None \<Rightarrow> Inl SyntaxError
      | Some d \<Rightarrow> bigIntOfHex rest (16 * acc + d))"

definition hexToNumber :: "string \<Rightarrow> error + nat" where
  "hexToNumber hex = (if hex = [] then Inr 0 else bigIntOfHex hex 0)"

definition bytesToNumberBE :: "bytes \<Rightarrow> error + nat" where
  "bytesToNumberBE a = hexToNumber (bytesToHex a)"

section \<open>Multilinear Galois Mode (mgm.ts)\<close>

text \<open>\<^verbatim>\<open>(blockSize / 2) | 0\<close>.\<close>

definition halfBlock :: "nat \<Rightarrow> int" where
  "halfBlock blockSize = toInt32 (int (blockSize div 2))"

definition incr :: "bytes \<Rightarrow> nat \<Rightarrow> error + bytes" where
  "incr data blockSize =
     (case bytesToNumberBE data of
        Inl e \<Rightarrow> Inl e
      | Inr n \<Rightarrow> numberToBytesBE (n + 1) (halfBlock blockSize))"

definition incr_r :: "bytes \<Rightarrow> nat \<Rightarrow> error + bytes" where
  "incr_r data blockSize =
     (case incr (subarray_from data (halfBlock blockSize)) blockSize of
        Inl e \<Rightarrow> Inl e
      | Inr right \<Rightarrow> Inr (concatBytes [subarray data 0 (halfBlock blockSize), right]))"

definition incr_l :: "bytes \<Rightarrow> nat \<Rightarrow> error + bytes" where
  "incr_l data blockSize =
     (case incr (subarray data 0 (halfBlock blockSize)) blockSize of
        Inl e \<Rightarrow> Inl e
      | Inr left \<Rightarrow> Inr (concatBytes [left, subarray_from data (halfBlock blockSize)]))"

record MGM =
  mgm_tag_size :: nat
  mgm_encrypter :: "bytes \<Rightarrow> bytes"
  mgm_blockSize :: nat
  mgm_max_size :: nat
  mgm_r :: nat

text \<open>The constructor; \<open>tagSize\<close> is optional.\<close>

definition MGM_new :: "(bytes \<Rightarrow> bytes) \<Rightarrow> nat \<Rightarrow> nat option \<Rightarrow> error + MGM" where
  "MGM_new encrypter blockSize tagSize =
     (if blockSize \<noteq> 8 \<and> blockSize \<noteq> 16 then Inl OnlyBlockSize64or128
      else let tag_size = (case tagSize of None \<Rightarrow> blockSize | Some t \<Rightarrow> t)
           in if tag_size < 4 \<or> tag_size > blockSize then Inl InvalidTagSize
              else Inr \<lparr> mgm_tag_size = tag_size, mgm_encrypter = encrypter,
                         mgm_blockSize = blockSize,
                         mgm_max_size = shiftLeft 1 (int (blockSize * 4)) - 1,
                         mgm_r = (if blockSize = 8 then 0x1B else 0x87) \<rparr>)"

definition validateSizes :: "MGM \<Rightarrow> bytes \<Rightarrow> bytes \<Rightarrow> error + unit" where
  "validateSizes m plaintext additional =
     (if length plaintext = 0 \<and> length additional = 0 then Inl PlaintextOrAdditionalRequired
      else if length plaintext + length additional > mgm_max_size m
           then Inl PlaintextAdditionalTooBig
      else Inr ())"

text \<open>The loop of \<^verbatim>\<open>mul\<close>, on the variables \<open>x\<close>, \<open>y\<close>, \<open>z\<close>.\<close>

function mul_loop :: "nat \<Rightarrow> nat \<Rightarrow> nat \<Rightarrow> nat \<Rightarrow> nat \<Rightarrow> nat" where
  "mul_loop max_bit r x y z =
     (if y > 0 then
        mul_loop max_bit r
          (if x AND max_bit > 0 then push_bit 1 (x XOR max_bit) XOR r else push_bit 1 x)
          (drop_bit 1 y)
          (if y AND 1 = 1 then z XOR x else z)
      else z)"
  by pat_completeness auto
termination
  by (relation "measure (\<lambda>(max_bit, r, x, y, z). y)") (auto simp: drop_bit_eq_div)

declare mul_loop.simps [simp del]

definition mul :: "MGM \<Rightarrow> bytes \<Rightarrow> bytes \<Rightarrow> error + bytes" where
  "mul m a b =
     (case bytesToNumberBE a of
        Inl e \<Rightarrow> Inl e
      | Inr x \<Rightarrow>
          (case bytesToNumberBE b of
             Inl e \<Rightarrow> Inl e
           | Inr y \<Rightarrow>
               numberToBytesBE
                 (mul_loop (shiftLeft 1 (int (mgm_blockSize m) * 8 - 1)) (mgm_r m) x y 0)
                 (int (mgm_blockSize m))))"

text \<open>
  The loop of \<^verbatim>\<open>crypt\<close>. With a block size of 0, which the constructor rejects,
  \<^verbatim>\<open>data.subarray(0)\<close> never gets shorter; the model stops there with
  \<open>ZeroBlockSizeLoop\<close> in place of the next iteration.
\<close>

function crypt_loop :: "MGM \<Rightarrow> bytes \<Rightarrow> bytes \<Rightarrow> bytes list \<Rightarrow> error + bytes" where
  "crypt_loop m enc data res =
     (if length data > 0 then
        (case incr_r enc (mgm_blockSize m) of
           Inl e \<Rightarrow> Inl e
         | Inr enc' \<Rightarrow>
             if mgm_blockSize m = 0 then Inl ZeroBlockSizeLoop
             else crypt_loop m enc' (subarray_from data (int (mgm_blockSize m)))
                    (res @ [xor_bytes (mgm_encrypter m enc) data]))
      else Inr (concatBytes res))"
  by pat_completeness auto
termination
  by (relation "measure (\<lambda>(m, enc, data, res). length data)")
     (auto simp: subarray_from_def relativeIndex_def)

declare crypt_loop.simps [simp del]

text \<open>
  The two \<^verbatim>\<open>while\<close> loops of \<^verbatim>\<open>auth\<close> have one body; the loop returns the counter
  and the sum it leaves.
\<close>

function auth_loop :: "MGM \<Rightarrow> bytes \<Rightarrow> bytes \<Rightarrow> bytes \<Rightarrow> error + bytes \<times> bytes" where
  "auth_loop m enc asum data =
     (if length data > 0 then
        (case pad1 (subarray data 0 (int (mgm_blockSize m))) (mgm_blockSize m) of
           Inl e \<Rightarrow> Inl e
         | Inr padded \<Rightarrow>
             (case mul m (mgm_encrypter m enc) padded of
                Inl e \<Rightarrow> Inl e
              | Inr product \<Rightarrow>
                  (case incr_l enc (mgm_blockSize m) of
                     Inl e \<Rightarrow> Inl e
                   | Inr enc' \<Rightarrow>
                       if mgm_blockSize m = 0 then Inl ZeroBlockSizeLoop
                       else auth_loop m enc' (xor_bytes asum product)
                              (subarray_from data (int (mgm_blockSize m))))))
      else Inr (enc, asum))"
  by pat_completeness auto
termination
  by (relation "measure (\<lambda>(m, enc, asum, data). length data)")
     (auto simp: subarray_from_def relativeIndex_def)

declare auth_loop.simps [simp del]

subsection \<open>The nonce buffer and its copy\<close>

text \<open>
  \<^verbatim>\<open>crypt\<close> and \<^verbatim>\<open>auth\<close> write into the array \<open>icn\<close> they are given, so the memory
  that is written lives in an explicit store: a list of byte sequences, an address being an
  index. A typed array object is a view of one of them. It is a plain \<^verbatim>\<open>Uint8Array\<close> or a
  Node \<^verbatim>\<open>Buffer\<close>, the subclass of \<^verbatim>\<open>Uint8Array\<close> that \<^verbatim>\<open>open\<close> itself uses for the
  comparison of the tags; the parameter type \<^verbatim>\<open>Uint8Array\<close> admits both.
  \<^verbatim>\<open>slice()\<close> of a plain \<^verbatim>\<open>Uint8Array\<close> allocates new memory holding a copy;
  \<^verbatim>\<open>slice()\<close> of a \<^verbatim>\<open>Buffer\<close> gives a \<^verbatim>\<open>Buffer\<close> on the same memory. The plaintext,
  ciphertext and additional data are only ever read and are passed by value. The block
  function is pure: it is a function of the bytes it is given.
\<close>

type_synonym addr = nat
type_synonym store = "bytes list"

datatype typedArray = Uint8Array (memoryOf: addr) | Buffer (memoryOf: addr)

fun slice_array :: "typedArray \<Rightarrow> store \<Rightarrow> typedArray \<times> store" where
  "slice_array (Uint8Array a) s = (Uint8Array (length s), s @ [s ! a])"
| "slice_array (Buffer a) s = (Buffer a, s)"

text \<open>\<^verbatim>\<open>a[0] &= v\<close> and \<^verbatim>\<open>a[0] |= v\<close>; a write past the end of an empty array
  is ignored.\<close>

definition and_byte0 :: "byte \<Rightarrow> bytes \<Rightarrow> bytes" where
  "and_byte0 v a = (case a of [] \<Rightarrow> [] | b # rest \<Rightarrow> (b AND v) # rest)"

definition or_byte0 :: "byte \<Rightarrow> bytes \<Rightarrow> bytes" where
  "or_byte0 v a = (case a of [] \<Rightarrow> [] | b # rest \<Rightarrow> (b OR v) # rest)"

definition nonce_prepare :: "typedArray \<Rightarrow> store \<Rightarrow> typedArray \<times> store" where
  "nonce_prepare nonce s =
     (let (n, s1) = slice_array nonce s
      in (n, s1[memoryOf n := and_byte0 0x7F (s1 ! memoryOf n)]))"

definition crypt :: "MGM \<Rightarrow> typedArray \<Rightarrow> bytes \<Rightarrow> store \<Rightarrow> (error + bytes) \<times> store" where
  "crypt m icn data s =
     (let s1 = s[memoryOf icn := and_byte0 0x7F (s ! memoryOf icn)];
          enc = mgm_encrypter m (s1 ! memoryOf icn)
      in (crypt_loop m enc data [], s1))"

definition auth_final :: "MGM \<Rightarrow> bytes \<Rightarrow> bytes \<Rightarrow> nat \<Rightarrow> nat \<Rightarrow> error + bytes" where
  "auth_final m enc asum ad_len text_len =
     (let halfbs = halfBlock (mgm_blockSize m) in
      case numberToBytesBE (ad_len * 8) halfbs of
        Inl e \<Rightarrow> Inl e
      | Inr adBits \<Rightarrow>
          (case numberToBytesBE (text_len * 8) halfbs of
             Inl e \<Rightarrow> Inl e
           | Inr textBits \<Rightarrow>
               (case mul m (mgm_encrypter m enc) (concatBytes [adBits, textBits]) of
                  Inl e \<Rightarrow> Inl e
                | Inr product \<Rightarrow>
                    Inr (subarray (mgm_encrypter m (xor_bytes asum product)) 0
                           (int (mgm_tag_size m))))))"

text \<open>\<^verbatim>\<open>auth\<close> after its counter is seeded: the sum over the additional data and
  the text, the length block, and the tag.\<close>

definition auth_sum :: "MGM \<Rightarrow> bytes \<Rightarrow> bytes \<Rightarrow> bytes \<Rightarrow> error + bytes" where
  "auth_sum m enc text ad =
     (let asum = newUint8Array (mgm_blockSize m) in
      case auth_loop m enc asum ad of
        Inl e \<Rightarrow> Inl e
      | Inr (enc1, asum1) \<Rightarrow>
          (case auth_loop m enc1 asum1 text of
             Inl e \<Rightarrow> Inl e
           | Inr (enc2, asum2) \<Rightarrow> auth_final m enc2 asum2 (length ad) (length text)))"

definition auth ::
  "MGM \<Rightarrow> typedArray \<Rightarrow> bytes \<Rightarrow> bytes \<Rightarrow> store \<Rightarrow> (error + bytes) \<times> store" where
  "auth m icn text ad s =
     (let s1 = s[memoryOf icn := or_byte0 0x80 (s ! memoryOf icn)];
          enc = mgm_encrypter m (s1 ! memoryOf icn)
      in (auth_sum m enc text ad, s1))"

definition seal ::
  "MGM \<Rightarrow> typedArray \<Rightarrow> bytes \<Rightarrow> bytes \<Rightarrow> store \<Rightarrow> (error + bytes) \<times> store" where
  "seal m nonce plaintext additional_data s =
     (case validateSizes m plaintext additional_data of
        Inl e \<Rightarrow> (Inl e, s)
      | Inr u \<Rightarrow>
          (let (icn, s1) = slice_array nonce s in
           case crypt m icn plaintext s1 of
             (Inl e, s2) \<Rightarrow> (Inl e, s2)
           | (Inr ciphertext, s2) \<Rightarrow>
               (case auth m icn ciphertext additional_data s2 of
                  (Inl e, s3) \<Rightarrow> (Inl e, s3)
                | (Inr tag, s3) \<Rightarrow> (Inr (concatBytes [ciphertext, tag]), s3))))"

definition open_mgm ::
  "MGM \<Rightarrow> typedArray \<Rightarrow> bytes \<Rightarrow> bytes \<Rightarrow> store \<Rightarrow> (error + bytes) \<times> store" where
  "open_mgm m nonce ciphertext additional_data s =
     (case validateSizes m ciphertext additional_data of
        Inl e \<Rightarrow> (Inl e, s)
      | Inr u \<Rightarrow>
          (let (icn, s1) = slice_array nonce s;
               ct = subarray ciphertext 0 (int (length ciphertext) - int (mgm_tag_size m));
               tag_expected =
                 subarray_from ciphertext (int (length ciphertext) - int (mgm_tag_size m))
           in case auth m icn ct additional_data s1 of
                (Inl e, s2) \<Rightarrow> (Inl e, s2)
              | (Inr tag, s2) \<Rightarrow>
                  if tag_expected \<noteq> tag then (Inl InvalidAuthenticationTag, s2)
                  else crypt m icn ct s2))"

section \<open>Counter mode and ACPKM re-keying (index.ts)\<close>

text \<open>The re-keying modes get a cipher class: its constructor takes a key and gives
  the object whose \<^verbatim>\<open>encrypt\<close> is the new block function.\<close>

type_synonym cipherFunc = "bytes \<Rightarrow> bytes"
type_synonym acpkmConstructor = "bytes \<Rightarrow> cipherFunc"

record ACPKMParameters =
  acpkm_cipherClass :: acpkmConstructor
  acpkm_sectionSize :: nat

definition acpkmDerivation :: "cipherFunc \<Rightarrow> nat \<Rightarrow> bytes" where
  "acpkmDerivation encrypter blockSize =
     concatBytes
       (map (\<lambda>j. encrypter (map (\<lambda>i. of_nat (0x80 + j * blockSize + i)) [0..<blockSize]))
          [0..<nat (toInt32 (int (KEYSIZE div blockSize)))])"

text \<open>\<^verbatim>\<open>Math.ceil(data.length / blockSize)\<close>; the quotient is \<^verbatim>\<open>NaN\<close> or infinite when
  \<open>blockSize\<close> is 0, and \<open>ctr\<close> only runs with \<open>blockSize = 0\<close> on empty data, where it is
  \<^verbatim>\<open>NaN\<close> and the loop is not entered.\<close>

definition ceilDiv :: "nat \<Rightarrow> nat \<Rightarrow> nat" where
  "ceilDiv n blockSize = (if blockSize = 0 then 0 else (n + blockSize - 1) div blockSize)"

text \<open>
  The loop of \<^verbatim>\<open>ctr\<close>: \<open>n\<close> is the number of blocks, \<open>acpkmSectionSize\<close> the 32-bit
  integer \<^verbatim>\<open>(acpkm.sectionSize / blockSize) | 0\<close>. \<^verbatim>\<open>ctr % acpkmSectionSize\<close> has the
  sign of \<open>ctr\<close>, which is not negative, and is \<^verbatim>\<open>NaN\<close> for a section size of 0.
\<close>

function ctr_loop ::
  "cipherFunc \<Rightarrow> nat \<Rightarrow> bytes \<Rightarrow> int \<Rightarrow> ACPKMParameters option \<Rightarrow> int \<Rightarrow> nat \<Rightarrow> nat
     \<Rightarrow> bytes list \<Rightarrow> error + bytes list" where
  "ctr_loop encrypter blockSize iv halfBlockSize acpkm acpkmSectionSize n ctr keystreamBlocks =
     (if ctr < n then
        (let encrypter' =
               (case acpkm of
                  None \<Rightarrow> encrypter
                | Some a \<Rightarrow>
                    if ctr \<noteq> 0 \<and> jsmod ctr (nat \<bar>acpkmSectionSize\<bar>) = Some 0
                    then acpkm_cipherClass a (acpkmDerivation encrypter blockSize)
                    else encrypter)
         in case numberToBytesBE ctr halfBlockSize of
              Inl e \<Rightarrow> Inl e
            | Inr counter \<Rightarrow>
                ctr_loop encrypter' blockSize iv halfBlockSize acpkm acpkmSectionSize n (ctr + 1)
                  (keystreamBlocks @ [encrypter' (concatBytes [iv, counter])]))
      else Inr keystreamBlocks)"
  by pat_completeness auto
termination
  by (relation "measure (\<lambda>(encrypter, blockSize, iv, h, acpkm, ss, n, ctr, ks). n - ctr)") auto

declare ctr_loop.simps [simp del]

definition ctr ::
  "cipherFunc \<Rightarrow> nat \<Rightarrow> bytes \<Rightarrow> bytes \<Rightarrow> ACPKMParameters option \<Rightarrow> error + bytes" where
  "ctr encrypter blockSize data iv acpkm =
     (let halfBlockSize = halfBlock blockSize in
      if int (length iv) \<noteq> halfBlockSize then Inl InvalidIVSize
      else let ctrMax = shiftLeft 1 (8 * halfBlockSize);
               maxSize = ctrMax * blockSize
           in if length data > maxSize then Inl TooBigData
              else let acpkmSectionSize =
                         (case acpkm of
                            None \<Rightarrow> 0
                          | Some a \<Rightarrow> toInt32 (int (acpkm_sectionSize a div blockSize)))
                   in case ctr_loop encrypter blockSize iv halfBlockSize acpkm acpkmSectionSize
                             (ceilDiv (length data) blockSize) 0 [] of
                        Inl e \<Rightarrow> Inl e
                      | Inr keystreamBlocks \<Rightarrow> Inr (xor_bytes (concatBytes keystreamBlocks) data))"

definition ctr_acpkm ::
  "acpkmConstructor \<Rightarrow> cipherFunc \<Rightarrow> nat \<Rightarrow> nat \<Rightarrow> bytes \<Rightarrow> bytes \<Rightarrow> error + bytes" where
  "ctr_acpkm cipherClass encrypter sectionSize blockSize data iv =
     ctr encrypter blockSize data iv
       (Some \<lparr> acpkm_cipherClass = cipherClass, acpkm_sectionSize = sectionSize \<rparr>)"

text \<open>\<^verbatim>\<open>new Uint8Array(n)\<close> throws a RangeError for a negative \<open>n\<close>.\<close>

definition acpkmDerivationMaster ::
  "acpkmConstructor \<Rightarrow> cipherFunc \<Rightarrow> nat \<Rightarrow> nat \<Rightarrow> nat \<Rightarrow> error + bytes" where
  "acpkmDerivationMaster cipherClass encrypter keySectionSize blockSize keyMaterialLength =
     (if halfBlock blockSize < 0 then Inl RangeError
      else ctr_acpkm cipherClass encrypter keySectionSize blockSize
             (replicate keyMaterialLength 0)
             (replicate (nat (halfBlock blockSize)) 0xFF))"

section \<open>MAC and OMAC-ACPKM (index.ts)\<close>

definition Rb64 :: nat where
  "Rb64 = 0x1B"

definition Rb128 :: nat where
  "Rb128 = 0x87"

definition macShift :: "nat \<Rightarrow> bytes \<Rightarrow> nat \<Rightarrow> error + bytes" where
  "macShift blockSize data xorLsb =
     (case bytesToNumberBE data of
        Inl e \<Rightarrow> Inl e
      | Inr v \<Rightarrow>
          (case numberToBytesBE ((v * 2) XOR xorLsb) (int blockSize) of
             Inl e \<Rightarrow> Inl e
           | Inr shifted \<Rightarrow> Inr (subarray_from shifted (- int blockSize))))"

definition macKs :: "cipherFunc \<Rightarrow> nat \<Rightarrow> error + bytes \<times> bytes" where
  "macKs encrypter blockSize =
     (let Rb = (if blockSize = 16 then Rb128 else Rb64);
          l = encrypter (newUint8Array blockSize)
      in case (if byte0 l AND 0x80 \<noteq> 0 then macShift blockSize l Rb
               else macShift blockSize l 0) of
           Inl e \<Rightarrow> Inl e
         | Inr k1 \<Rightarrow>
             (case (if byte0 k1 AND 0x80 \<noteq> 0 then macShift blockSize k1 Rb
                    else macShift blockSize k1 0) of
                Inl e \<Rightarrow> Inl e
              | Inr k2 \<Rightarrow> Inr (k1, k2)))"

text \<open>The offset of the last block, as \<^verbatim>\<open>mac\<close> and \<^verbatim>\<open>omac_acpkm_master\<close> compute it;
  \<^verbatim>\<open>NaN\<close> for a block size of 0.\<close>

definition tailOffset :: "nat \<Rightarrow> nat \<Rightarrow> int option" where
  "tailOffset dataLength blockSize =
     (if jsmod dataLength blockSize = Some 0 then Some (int dataLength - int blockSize)
      else map_option (\<lambda>r. int dataLength - int r) (jsmod dataLength blockSize))"

text \<open>The number of sections \<^verbatim>\<open>omac_acpkm_master\<close> derives key material for, and the
  length it asks \<^verbatim>\<open>acpkmDerivationMaster\<close> for.\<close>

definition omac_sections :: "nat \<Rightarrow> nat \<Rightarrow> nat" where
  "omac_sections dataLength sectionSize =
     (if jsmod dataLength sectionSize \<noteq> Some 0 then dataLength + 1 else dataLength)"

definition omac_keyMaterialLength :: "nat \<Rightarrow> nat \<Rightarrow> nat \<Rightarrow> nat" where
  "omac_keyMaterialLength dataLength sectionSize blockSize =
     (KEYSIZE + blockSize) * omac_sections dataLength sectionSize"

text \<open>
  The \<^verbatim>\<open>for\<close> loop of \<^verbatim>\<open>omac_acpkm_master\<close> on the variables \<open>keymats\<close>, \<open>k1\<close>,
  \<open>encrypter\<close> and \<open>prev\<close>. It is entered only with a block size above 0: with a block
  size of 0 the bound \<open>tail_offset\<close> is \<^verbatim>\<open>NaN\<close>.
\<close>

function omac_loop ::
  "acpkmConstructor \<Rightarrow> nat \<Rightarrow> nat \<Rightarrow> bytes \<Rightarrow> int \<Rightarrow> nat
     \<Rightarrow> bytes \<times> bytes \<times> cipherFunc \<times> bytes \<Rightarrow> bytes \<times> bytes \<times> cipherFunc \<times> bytes" where
  "omac_loop cipherClass sectionSize blockSize data tail_offset i (keymats, k1, encrypter, prev) =
     (if int i < tail_offset \<and> 0 < blockSize then
        (let (keymats', k1', encrypter') =
               (if jsmod i sectionSize = Some 0 then
                  (let keymat = subarray keymats 0 (int (KEYSIZE + blockSize));
                       key = subarray keymat 0 (int KEYSIZE)
                   in (subarray_from keymats (int (KEYSIZE + blockSize)),
                       subarray_from keymat (int KEYSIZE),
                       cipherClass key))
                else (keymats, k1, encrypter))
         in omac_loop cipherClass sectionSize blockSize data tail_offset (i + blockSize)
              (keymats', k1',  encrypter',
               encrypter' (xor_bytes (subarray data (int i) (int (i + blockSize))) prev)))
      else (keymats, k1, encrypter, prev))"
  by pat_completeness auto
termination
  by (relation "measure (\<lambda>(c, ss, bs, d, t, i, st). nat (t - int i))") auto

declare omac_loop.simps [simp del]

text \<open>The derivation of \<open>k2\<close> from the current \<open>k1\<close> in \<^verbatim>\<open>omac_acpkm_master\<close>.\<close>

definition omac_k2 :: "bytes \<Rightarrow> nat \<Rightarrow> error + bytes" where
  "omac_k2 k1 blockSize =
     (case bytesToNumberBE k1 of
        Inl e \<Rightarrow> Inl e
      | Inr v \<Rightarrow>
          (case numberToBytesBE (shiftLeft v 1) (int blockSize) of
             Inl e \<Rightarrow> Inl e
           | Inr k2 \<Rightarrow>
               if byte0 k1 AND 0x80 \<noteq> 0 then
                 (case numberToBytesBE (if blockSize = 16 then Rb128 else Rb64) (int blockSize) of
                    Inl e \<Rightarrow> Inl e
                  | Inr rb \<Rightarrow> Inr (xor_bytes k2 rb))
               else Inr k2))"

definition omac_acpkm_master ::
  "acpkmConstructor \<Rightarrow> cipherFunc \<Rightarrow> nat \<Rightarrow> nat \<Rightarrow> nat \<Rightarrow> bytes \<Rightarrow> error + bytes" where
  "omac_acpkm_master cipherClass encrypter keySectionSize sectionSize blockSize data =
     (let tail_offset = tailOffset (length data) blockSize;
          prev = newUint8Array blockSize
      in case acpkmDerivationMaster cipherClass encrypter keySectionSize blockSize
                (omac_keyMaterialLength (length data) sectionSize blockSize) of
           Inl e \<Rightarrow> Inl e
         | Inr keymats0 \<Rightarrow>
             (let (keymats, k1a, encrypter1, prev1) =
                    (case tail_offset of
                       None \<Rightarrow> (keymats0, newUint8Array sectionSize, encrypter, prev)
                     | Some t \<Rightarrow>
                         omac_loop cipherClass sectionSize blockSize data t 0
                           (keymats0, newUint8Array sectionSize, encrypter, prev));
                  tail = (case tail_offset of
                            None \<Rightarrow> subarray_from data 0
                          | Some t \<Rightarrow> subarray_from data t);
                  (k1, encrypter2) =
                    (if length tail = blockSize
                     then (subarray_from keymats (int KEYSIZE),
                           cipherClass (subarray keymats 0 (int KEYSIZE)))
                     else (k1a, encrypter1))
              in case omac_k2 k1 blockSize of
                   Inl e \<Rightarrow> Inl e
                 | Inr k2 \<Rightarrow>
                     (case pad3 tail blockSize of
                        Inl e \<Rightarrow> Inl e
                      | Inr padded \<Rightarrow>
                          Inr (encrypter2
                                 (xor_bytes (xor_bytes padded prev1)
                                    (if length tail = blockSize then k1 else k2))))))"

section \<open>Notions used to state the properties\<close>

text \<open>A block function maps a block to a block.\<close>

definition blockFunction :: "cipherFunc \<Rightarrow> nat \<Rightarrow> bool" where
  "blockFunction encrypter blockSize =
     (\<forall>x. length x = blockSize \<longrightarrow> length (encrypter x) = blockSize)"

text \<open>The store after \<^verbatim>\<open>slice()\<close> of the nonce and a write of \<open>v\<close> through the array
  \<open>icn\<close> that \<^verbatim>\<open>slice()\<close> returned.\<close>

definition icn_store :: "typedArray \<Rightarrow> store \<Rightarrow> bytes \<Rightarrow> store" where
  "icn_store nonce s v = (snd (slice_array nonce s))[memoryOf (fst (slice_array nonce s)) := v]"

text \<open>The number a byte sequence denotes, big-endian.\<close>

definition from_be :: "bytes \<Rightarrow> nat" where
  "from_be a = foldl (\<lambda>acc b. 256 * acc + unat b) 0 a"

text \<open>The hexadecimal digits of a number as numbers, the digits \<^verbatim>\<open>numberToBytesBE\<close>
  pairs up after padding, and the bytes the pairs give.\<close>

fun hexDigits :: "nat \<Rightarrow> nat list" where
  "hexDigits n = (if n < 16 then [n] else hexDigits (n div 16) @ [n mod 16])"

declare hexDigits.simps [simp del]

definition paddedDigits :: "nat \<Rightarrow> int \<Rightarrow> nat list" where
  "paddedDigits n len = replicate (nat (len * 2) - length (hexDigits n)) 0 @ hexDigits n"

fun digitPairs :: "nat list \<Rightarrow> bytes" where
  "digitPairs (h # l # rest) = of_nat (h * 16 + l) # digitPairs rest"
| "digitPairs rest = []"

definition digitsValue :: "nat list \<Rightarrow> nat" where
  "digitsValue ds = foldl (\<lambda>acc d. 16 * acc + d) 0 ds"

section \<open>Properties of the padding procedures\<close>

lemma pad_multiple:
  assumes "0 < bs"
  shows "(n + (bs - n mod bs)) mod bs = (0::nat)"
proof -
  have lt: "n mod bs < bs" using assms by simp
  have "n + (bs - n mod bs) = (n div bs) * bs + bs"
    using div_mult_mod_eq[of n bs] lt by linarith
  then show ?thesis by simp
qed

lemma getPadLength_pos:
  "0 < bs \<Longrightarrow> getPadLength n bs =
     Some (if n < bs then bs - n else if n mod bs = 0 then 0 else bs - n mod bs)"
  by (simp add: getPadLength_def jsmod_def)

lemma typed_set_zeros:
  "typed_set (newUint8Array (length d + k)) d 0 = Inr (d @ replicate k 0)"
  by (simp add: typed_set_def newUint8Array_def)

lemma pad1_pos:
  "0 < bs \<Longrightarrow> pad1 data bs =
     Inr (data @ replicate (if length data < bs then bs - length data
                            else if length data mod bs = 0 then 0 else bs - length data mod bs) 0)"
  by (simp only: pad1_def getPadLength_pos paddedLength_def option.case typed_set_zeros)

text \<open>
  Claim C7 (amended). \<^verbatim>\<open>pad1\<close> appends zero bytes up to a multiple of the block size.
  A non-empty input gets fewer than \<open>blockSize\<close> zero bytes; a zero-length input gets a
  whole block of zero bytes, because \<^verbatim>\<open>getPadLength\<close> answers \<open>blockSize - dataLength\<close>
  whenever \<open>dataLength < blockSize\<close>.
\<close>

theorem pad1_zero_extends:
  assumes "0 < bs"
  shows "\<exists>k. pad1 data bs = Inr (data @ replicate k 0) \<and> (length data + k) mod bs = 0
           \<and> (if data = [] then k = bs else k < bs)"
proof -
  let ?n = "length data"
  let ?k = "if ?n < bs then bs - ?n else if ?n mod bs = 0 then 0 else bs - ?n mod bs"
  have 1: "pad1 data bs = Inr (data @ replicate ?k 0)" using assms by (rule pad1_pos)
  have 2: "(?n + ?k) mod bs = 0"
  proof (cases "?n < bs")
    case True then show ?thesis by simp
  next
    case False
    show ?thesis
    proof (cases "?n mod bs = 0")
      case True with False show ?thesis by simp
    next
      case nz: False
      have "(?n + (bs - ?n mod bs)) mod bs = 0" using assms by (rule pad_multiple)
      then show ?thesis using False nz by simp
    qed
  qed
  have 3: "if data = [] then ?k = bs else ?k < bs"
    using assms by (cases data) auto
  show ?thesis
    by (rule exI[of _ ?k]) (use 1 2 3 in \<open>simp only: simp_thms\<close>)
qed

theorem pad1_zero_extends_witness:
  "(0::nat) < 8 \<and> pad1 [1, 2, 3] 8 = Inr ([1, 2, 3] @ replicate 5 0) \<and>
   (length [1, 2, 3 :: byte] + 5) mod 8 = 0 \<and> pad1 [] 8 = Inr ([] @ replicate 8 0)"
proof -
  have h: "(0::nat) < 8" by simp
  obtain k where k: "pad1 [1, 2, 3] 8 = Inr ([1, 2, 3] @ replicate k 0)"
      "(length [1, 2, 3 :: byte] + k) mod 8 = 0" "k < 8"
    using pad1_zero_extends[OF h, of "[1, 2, 3]"] by auto
  from k(2) have "(3 + k) mod 8 = 0" by simp
  with k(3) have "k = 5" by presburger
  obtain k' where k': "pad1 [] 8 = Inr ([] @ replicate k' 0)" "k' = 8"
    using pad1_zero_extends[OF h, of "[]"] by auto
  from k \<open>k = 5\<close> k' h show ?thesis by simp
qed

text \<open>
  The claim as written fails: \<^verbatim>\<open>pad1\<close> of the zero-length buffer with block size 8 is
  eight zero bytes, not the zero-length buffer.
\<close>

theorem pad1_empty_counterexample:
  "pad1 [] 8 = Inr [0, 0, 0, 0, 0, 0, 0, 0] \<and> length [0, 0, 0, 0, 0, 0, 0, 0 :: byte] \<noteq> 0"
  by (simp add: pad1_def getPadLength_def paddedLength_def typed_set_def newUint8Array_def
      numeral_eq_Suc)

lemma pad2_pos:
  assumes "0 < bs"
  shows "pad2 x bs = Inr (x @ 0x80 # replicate
            (if length x + 1 < bs then bs - (length x + 1)
             else if (length x + 1) mod bs = 0 then 0 else bs - (length x + 1) mod bs) 0)"
proof -
  let ?k = "if length x + 1 < bs then bs - (length x + 1)
             else if (length x + 1) mod bs = 0 then 0 else bs - (length x + 1) mod bs"
  have len: "paddedLength (length x + 1) (getPadLength (length x + 1) bs) = length x + Suc ?k"
    using assms by (simp add: getPadLength_pos paddedLength_def)
  have set: "typed_set (newUint8Array (length x + Suc ?k)) x 0 = Inr (x @ replicate (Suc ?k) 0)"
    by (rule typed_set_zeros)
  have upd: "(x @ replicate (Suc ?k) (0::byte))[length x := 0x80] = x @ 0x80 # replicate ?k 0"
    by (simp add: list_update_append)
  show ?thesis
    unfolding pad2_def len set sum.case upd ..
qed

lemma findPadIndex_marker:
  "j \<le> k \<Longrightarrow> findPadIndex (y @ 0x80 # replicate k 0) (length y + 1 + j) = int (length y)"
proof (induction j)
  case 0
  then show ?case by simp
next
  case (Suc j)
  then have "(y @ 0x80 # replicate k (0::byte)) ! (length y + 1 + j) = 0"
    by (simp add: nth_append)
  with Suc show ?case by simp
qed

lemma zerosAfter_replicate: "zerosAfter (replicate k 0)"
  by (induction k) simp_all

lemma unpad2_marker:
  assumes "0 < bs" and "k < bs" and "(length x + 1 + k) mod bs = 0"
  shows "unpad2 (x @ 0x80 # replicate k 0) bs = Inr x"
proof -
  let ?p = "x @ 0x80 # replicate k (0::byte)"
  let ?n = "length x"
  have "bs dvd ?n + 1 + k" using assms(3) by (simp add: dvd_eq_mod_eq_0)
  then have ge: "bs \<le> ?n + 1 + k" by (rule dvd_imp_le) simp
  define d where "d = ?n + 1 + k - bs"
  have d: "d \<le> ?n" "?n - d = bs - k - 1" using ge assms(2) by (simp_all add: d_def)
  have rel: "relativeIndex (int (length ?p) - int bs) (length ?p) = d"
    using ge by (simp add: relativeIndex_def d_def)
  have last: "subarray_from ?p (int (length ?p) - int bs) = drop d x @ 0x80 # replicate k 0"
    unfolding subarray_from_def rel using d(1) by simp
  let ?y = "drop d x"
  have ly: "length ?y = bs - k - 1" using d by simp
  have idx: "findPadIndex (?y @ 0x80 # replicate k 0) (length (?y @ 0x80 # replicate k (0::byte)))
               = int (length ?y)"
    using findPadIndex_marker[of k k ?y] by simp
  have za: "zerosAfter (drop (nat (int (length ?y) + 1)) (?y @ 0x80 # replicate k 0))"
    by (simp add: nat_add_distrib zerosAfter_replicate)
  define L where "L = length ?y"
  have L: "L + k + 1 = bs" using ly assms(2) unfolding L_def by linarith
  have "int (length ?p) - (int bs - int L) = int ?n"
    using L by simp
  then have e: "int (length ?p) - (int bs - int (length ?y)) = int ?n"
    unfolding L_def .
  have fin: "subarray ?p 0 (int (length ?p) - (int bs - int (length ?y))) = x"
    unfolding e by (simp add: subarray_def relativeIndex_def)
  show ?thesis
    unfolding unpad2_def last Let_def idx using za fin by simp
qed

lemma unpad2_pad2_pos:
  assumes "0 < bs"
  shows "\<exists>p. pad2 x bs = Inr p \<and> unpad2 p bs = Inr x"
proof -
  let ?k = "if length x + 1 < bs then bs - (length x + 1)
             else if (length x + 1) mod bs = 0 then 0 else bs - (length x + 1) mod bs"
  have p: "pad2 x bs = Inr (x @ 0x80 # replicate ?k 0)" using assms by (rule pad2_pos)
  have k: "?k < bs" using assms by auto
  have m: "(length x + 1 + ?k) mod bs = 0"
    using assms pad_multiple[of bs "length x + 1"] by auto
  have "unpad2 (x @ 0x80 # replicate ?k 0) bs = Inr x"
    using assms k m by (rule unpad2_marker)
  with p show ?thesis by simp
qed

text \<open>
  Claim C9. Padding round-trip: for every byte sequence \<open>x\<close> and block size 8 or 16,
  \<^verbatim>\<open>pad2\<close> returns a buffer from which \<^verbatim>\<open>unpad2\<close> recovers \<open>x\<close>.
\<close>

theorem unpad2_pad2_roundtrip:
  assumes "bs = 8 \<or> bs = 16"
  shows "\<exists>p. pad2 x bs = Inr p \<and> unpad2 p bs = Inr x"
  using assms unpad2_pad2_pos[of bs x] by auto

theorem unpad2_pad2_roundtrip_witness:
  "((8::nat) = 8 \<or> (8::nat) = 16) \<and>
   pad2 [0x11, 0x22] 8 = Inr [0x11, 0x22, 0x80, 0, 0, 0, 0, 0] \<and>
   unpad2 [0x11, 0x22, 0x80, 0, 0, 0, 0, 0] 8 = Inr [0x11, 0x22]"
proof -
  have h: "(8::nat) = 8 \<or> (8::nat) = 16" by simp
  have p: "pad2 [0x11, 0x22] 8 = Inr [0x11, 0x22, 0x80, 0, 0, 0, 0, 0]"
    by (simp add: pad2_def getPadLength_def paddedLength_def typed_set_def newUint8Array_def
        numeral_eq_Suc)
  from unpad2_pad2_roundtrip[OF h, of "[0x11, 0x22]"] p
  have "unpad2 [0x11, 0x22, 0x80, 0, 0, 0, 0, 0] 8 = Inr [0x11, 0x22]" by simp
  with h p show ?thesis by simp
qed

section \<open>Properties of the byte utilities\<close>

lemma asciiToBase16_hexDigit:
  assumes "d < 16"
  shows "asciiToBase16 (of_char (hexDigit d)) = Some d"
proof -
  from assms have "d = 0 \<or> d = 1 \<or> d = 2 \<or> d = 3 \<or> d = 4 \<or> d = 5 \<or> d = 6 \<or> d = 7
      \<or> d = 8 \<or> d = 9 \<or> d = 10 \<or> d = 11 \<or> d = 12 \<or> d = 13 \<or> d = 14 \<or> d = 15"
    by arith
  then show ?thesis
    by (elim disjE) (simp_all add: hexDigit_def asciiToBase16_def)
qed

lemma hexDigit_0: "hexDigit 0 = CHR ''0''"
  by (simp add: hexDigit_def)

lemma toString16_hexDigits: "toString16 n = map hexDigit (hexDigits n)"
proof (induction n rule: hexDigits.induct)
  case (1 n)
  show ?case
  proof (cases "n < 16")
    case True
    then show ?thesis by (simp add: toString16.simps[of n] hexDigits.simps[of n])
  next
    case False
    with 1 show ?thesis by (simp add: toString16.simps[of n] hexDigits.simps[of n])
  qed
qed

lemma hexDigits_lt16: "d \<in> set (hexDigits n) \<Longrightarrow> d < 16"
proof (induction n rule: hexDigits.induct)
  case (1 n)
  show ?case
  proof (cases "n < 16")
    case True
    with 1(2) show ?thesis by (simp add: hexDigits.simps[of n])
  next
    case False
    with 1 show ?thesis by (auto simp: hexDigits.simps[of n])
  qed
qed

lemma hexDigits_nonempty: "hexDigits n \<noteq> []"
  by (subst hexDigits.simps) simp

lemma digitsValue_append: "digitsValue (xs @ [d]) = 16 * digitsValue xs + d"
  by (simp add: digitsValue_def)

lemma digitsValue_hexDigits: "digitsValue (hexDigits n) = n"
proof (induction n rule: hexDigits.induct)
  case (1 n)
  show ?case
  proof (cases "n < 16")
    case True
    then show ?thesis by (simp add: hexDigits.simps[of n] digitsValue_def)
  next
    case False
    with 1 show ?thesis by (simp add: hexDigits.simps[of n] digitsValue_append)
  qed
qed

lemma length_hexDigits_le: "0 < k \<Longrightarrow> length (hexDigits n) \<le> k \<longleftrightarrow> n < 16 ^ k"
proof (induction n arbitrary: k rule: hexDigits.induct)
  case (1 n)
  show ?case
  proof (cases "n < 16")
    case True
    have "(16::nat) ^ 1 \<le> 16 ^ k" using 1(2) by (intro power_increasing) simp_all
    with True have "n < 16 ^ k" by simp
    with True 1(2) show ?thesis by (simp add: hexDigits.simps[of n])
  next
    case False
    show ?thesis
    proof (cases "k = 1")
      case True
      from True False show ?thesis by (simp add: hexDigits.simps[of n] hexDigits_nonempty)
    next
      case k: False
      with 1(2) obtain j where j: "k = Suc j" "0 < j" by (cases k) auto
      have "length (hexDigits (n div 16)) \<le> j \<longleftrightarrow> n div 16 < 16 ^ j"
        using 1(1)[OF False j(2)] .
      moreover have "n div 16 < 16 ^ j \<longleftrightarrow> n < 16 ^ k"
        using j(1) by (simp add: less_mult_imp_div_less div_less_iff_less_mult mult.commute)
      ultimately show ?thesis using False j(1) by (simp add: hexDigits.simps[of n])
    qed
  qed
qed

lemma hexToBytes_loop_digits:
  "\<forall>d \<in> set ds. d < 16 \<Longrightarrow> hexToBytes_loop (map hexDigit ds) hi = Inr (digitPairs ds)"
proof (induction ds arbitrary: hi rule: digitPairs.induct)
  case (1 h l rest)
  then show ?case by (simp add: asciiToBase16_hexDigit)
qed simp_all

lemma hexToBytes_digits:
  assumes "\<forall>d \<in> set ds. d < 16"
  shows "hexToBytes (map hexDigit ds) =
           (if length ds mod 2 \<noteq> 0 then Inl (HexOddLength (length ds)) else Inr (digitPairs ds))"
  using assms by (simp add: hexToBytes_def hexToBytes_loop_digits)

lemma paddedDigits_lt16: "\<forall>d \<in> set (paddedDigits n len). d < 16"
  by (auto simp: paddedDigits_def hexDigits_lt16)

lemma padStart_toString16:
  "padStart (toString16 n) (len * 2) (CHR ''0'') = map hexDigit (paddedDigits n len)"
  by (simp add: padStart_def toString16_hexDigits paddedDigits_def hexDigit_0)

lemma numberToBytesBE_digits:
  "numberToBytesBE n len =
     (if length (paddedDigits n len) mod 2 \<noteq> 0 then Inl (HexOddLength (length (paddedDigits n len)))
      else Inr (digitPairs (paddedDigits n len)))"
  unfolding numberToBytesBE_def padStart_toString16
  by (rule hexToBytes_digits) (rule paddedDigits_lt16)

lemma length_digitPairs: "length (digitPairs ds) = length ds div 2"
  by (induction ds rule: digitPairs.induct) simp_all

lemma unat_digit_pair:
  assumes "h < 16" and "l < 16"
  shows "unat (of_nat (h * 16 + l) :: byte) = h * 16 + l"
proof -
  from assms have "h * 16 + l < 256" by simp
  then show ?thesis by (simp only: unat_of_nat) simp
qed

lemma foldl_digitPairs:
  "\<forall>d \<in> set ds. d < 16 \<Longrightarrow> even (length ds) \<Longrightarrow>
     foldl (\<lambda>acc b. 256 * acc + unat b) acc (digitPairs ds) = foldl (\<lambda>acc d. 16 * acc + d) acc ds"
proof (induction ds arbitrary: acc rule: digitPairs.induct)
  case (1 h l rest)
  let ?F = "\<lambda>acc (b::byte). 256 * acc + unat b"
  let ?G = "\<lambda>acc (d::nat). 16 * acc + d"
  from 1(2) have "h < 16" "l < 16" by simp_all
  then have u: "unat (of_nat (h * 16 + l) :: byte) = h * 16 + l"
    by (rule unat_digit_pair)
  have "foldl ?F acc (digitPairs (h # l # rest)) = foldl ?F (256 * acc + (h * 16 + l)) (digitPairs rest)"
    by (simp only: digitPairs.simps foldl_Cons u)
  also have "\<dots> = foldl ?G (256 * acc + (h * 16 + l)) rest"
    using 1 by simp
  also have "256 * acc + (h * 16 + l) = 16 * (16 * acc + h) + l" by simp
  finally show ?case by simp
qed simp_all

lemma from_be_digitPairs:
  "\<forall>d \<in> set ds. d < 16 \<Longrightarrow> even (length ds) \<Longrightarrow> from_be (digitPairs ds) = digitsValue ds"
  by (simp add: from_be_def digitsValue_def foldl_digitPairs)

lemma foldl_digits_zeros: "foldl (\<lambda>acc d. 16 * acc + d) 0 (replicate k 0) = (0::nat)"
  by (induction k) simp_all

lemma digitsValue_paddedDigits: "digitsValue (paddedDigits n len) = n"
  using digitsValue_hexDigits[of n]
  by (simp add: paddedDigits_def digitsValue_def foldl_digits_zeros)

lemma length_paddedDigits:
  "length (paddedDigits n len) = max (nat (len * 2)) (length (hexDigits n))"
  by (simp add: paddedDigits_def)

lemma numberToBytesBE_Inr:
  assumes "numberToBytesBE n len = Inr r"
  shows "from_be r = n" and "len \<le> int (length r)"
    and "even (length (paddedDigits n len))" and "length r = length (paddedDigits n len) div 2"
proof -
  from assms have ev: "even (length (paddedDigits n len))"
    and r: "r = digitPairs (paddedDigits n len)"
    by (auto simp: numberToBytesBE_digits split: if_splits)
  show "even (length (paddedDigits n len))" by (rule ev)
  show "from_be r = n"
    unfolding r using paddedDigits_lt16 ev
    by (simp add: from_be_digitPairs digitsValue_paddedDigits)
  show len: "length r = length (paddedDigits n len) div 2"
    unfolding r by (rule length_digitPairs)
  have "nat (len * 2) \<le> length (paddedDigits n len)" by (simp add: length_paddedDigits)
  then show "len \<le> int (length r)" unfolding len by linarith
qed

lemma numberToBytesBE_fits:
  assumes "0 < len" and "n < 256 ^ len"
  shows "\<exists>r. numberToBytesBE n (int len) = Inr r \<and> length r = len \<and> from_be r = n"
proof -
  have "(256::nat) ^ len = 16 ^ (2 * len)" by (simp add: power_mult)
  with assms have "length (hexDigits n) \<le> 2 * len"
    by (simp add: length_hexDigits_le)
  then have len: "length (paddedDigits n (int len)) = 2 * len"
    by (simp add: length_paddedDigits nat_mult_distrib)
  then have "numberToBytesBE n (int len) = Inr (digitPairs (paddedDigits n (int len)))"
    by (simp add: numberToBytesBE_digits)
  moreover from this have "from_be (digitPairs (paddedDigits n (int len))) = n"
    by (rule numberToBytesBE_Inr(1))
  moreover have "length (digitPairs (paddedDigits n (int len))) = len"
    by (simp add: length_digitPairs len)
  ultimately show ?thesis by blast
qed

lemma length_hexDigits_pow: "length (hexDigits (16 ^ k)) = Suc k"
proof (induction k)
  case 0
  show ?case by (subst hexDigits.simps) simp
next
  case (Suc k)
  have "hexDigits (16 ^ Suc k) = hexDigits (16 ^ k) @ [0]"
    by (subst hexDigits.simps) simp
  then show ?case using Suc by simp
qed

lemma numberToBytesBE_overflow:
  "numberToBytesBE (256 ^ len) (int len) = Inl (HexOddLength (2 * len + 1))"
proof -
  have "(256::nat) ^ len = 16 ^ (2 * len)" by (simp add: power_mult)
  then have "length (hexDigits (256 ^ len)) = Suc (2 * len)"
    by (simp add: length_hexDigits_pow)
  then have "length (paddedDigits (256 ^ len) (int len)) = 2 * len + 1"
    by (simp add: length_paddedDigits nat_mult_distrib)
  then show ?thesis by (simp add: numberToBytesBE_digits)
qed

lemma hexes_digits: "hexes b = map hexDigit [unat b div 16, unat b mod 16]"
proof -
  have lt: "unat b < 256" using unsigned_less[of b, where ?'a = nat] by simp
  show ?thesis
  proof (cases "unat b < 16")
    case True
    then show ?thesis
      by (simp add: hexes_def padStart_def toString16.simps[of "unat b"] hexDigit_0)
  next
    case False
    from lt have "unat b div 16 < 16" by simp
    with False show ?thesis
      by (simp add: hexes_def padStart_def toString16.simps[of "unat b"]
          toString16.simps[of "unat b div 16"])
  qed
qed

lemma bigIntOfHex_digits:
  "\<forall>d \<in> set ds. d < 16 \<Longrightarrow>
     bigIntOfHex (map hexDigit ds) acc = Inr (foldl (\<lambda>acc d. 16 * acc + d) acc ds)"
  by (induction ds arbitrary: acc) (simp_all add: asciiToBase16_hexDigit)

lemma bigIntOfHex_bytesToHex:
  "bigIntOfHex (bytesToHex a) acc = Inr (foldl (\<lambda>acc b. 256 * acc + unat b) acc a)"
proof (induction a arbitrary: acc)
  case Nil
  show ?case by (simp add: bytesToHex_def)
next
  case (Cons b a)
  have lt: "unat b < 256" using unsigned_less[of b, where ?'a = nat] by simp
  then have d: "unat b div 16 < 16" "unat b mod 16 < 16" by simp_all
  have "bytesToHex (b # a) = hexDigit (unat b div 16) # hexDigit (unat b mod 16) # bytesToHex a"
    by (simp add: bytesToHex_def hexes_digits)
  moreover have "16 * (16 * acc + unat b div 16) + unat b mod 16 = 256 * acc + unat b"
    by simp
  ultimately show ?case using Cons d by (simp add: asciiToBase16_hexDigit add.commute)
qed

lemma bytesToNumberBE_from_be: "bytesToNumberBE a = Inr (from_be a)"
proof (cases "bytesToHex a = []")
  case True
  then have "a = []" by (cases a) (simp_all add: bytesToHex_def hexes_digits)
  with True show ?thesis by (simp add: bytesToNumberBE_def hexToNumber_def from_be_def)
next
  case False
  then show ?thesis
    by (simp add: bytesToNumberBE_def hexToNumber_def from_be_def bigIntOfHex_bytesToHex)
qed

lemma foldl_be_bound:
  "foldl (\<lambda>acc b. 256 * acc + unat (b::byte)) acc a < (acc + 1) * 256 ^ length a"
proof (induction a arbitrary: acc)
  case Nil
  show ?case by simp
next
  case (Cons b a)
  have lt: "unat b < 256" using unsigned_less[of b, where ?'a = nat] by simp
  have "foldl (\<lambda>acc b. 256 * acc + unat b) (256 * acc + unat b) a
          < (256 * acc + unat b + 1) * 256 ^ length a" by (rule Cons.IH)
  also have "\<dots> \<le> (256 * acc + 256) * 256 ^ length a"
    using lt by (intro mult_right_mono) simp_all
  finally show ?case by (simp add: algebra_simps)
qed

lemma from_be_bound: "from_be a < 256 ^ length a"
  using foldl_be_bound[of 0 a] by (simp add: from_be_def)

text \<open>A number of one hexadecimal digit more than the length holds makes
  \<^verbatim>\<open>numberToBytesBE\<close> throw; a byte sequence with the high bit of its first byte set
  denotes at least half of \<open>256 ^ length\<close>.\<close>

lemma numberToBytesBE_one_digit_over:
  assumes "256 ^ len \<le> n" and "n < 16 * 256 ^ len"
  shows "numberToBytesBE n (int len) = Inl (HexOddLength (2 * len + 1))"
proof -
  have p: "(256::nat) ^ len = 16 ^ (2 * len)" by (simp add: power_mult)
  have "n < 16 ^ (2 * len + 1)" using assms(2) unfolding p by simp
  then have le: "length (hexDigits n) \<le> 2 * len + 1"
    by (simp add: length_hexDigits_le)
  have "\<not> length (hexDigits n) \<le> 2 * len"
  proof (cases "len = 0")
    case True
    then show ?thesis by (simp add: hexDigits_nonempty)
  next
    case False
    then have "0 < 2 * len" by simp
    from length_hexDigits_le[OF this, of n] assms(1) show ?thesis unfolding p by simp
  qed
  with le have "length (hexDigits n) = 2 * len + 1" by simp
  then have "length (paddedDigits n (int len)) = 2 * len + 1"
    by (simp add: length_paddedDigits nat_mult_distrib)
  then show ?thesis by (simp add: numberToBytesBE_digits)
qed

lemma foldl_be_lower:
  "acc * 256 ^ length a \<le> foldl (\<lambda>acc b. 256 * acc + unat (b::byte)) acc a"
proof (induction a arbitrary: acc)
  case Nil
  show ?case by simp
next
  case (Cons b a)
  have "acc * 256 ^ length (b # a) \<le> (256 * acc + unat b) * 256 ^ length a"
    by (simp add: algebra_simps)
  also have "\<dots> \<le> foldl (\<lambda>acc b. 256 * acc + unat (b::byte)) (256 * acc + unat b) a"
    by (rule Cons.IH)
  finally show ?case by simp
qed

lemma high_bit_unat:
  fixes b :: byte
  assumes "b AND 0x80 \<noteq> 0"
  shows "128 \<le> unat b"
proof (rule ccontr)
  assume "\<not> 128 \<le> unat b"
  then have "unat b div 2 ^ 7 = 0" by simp
  then have "\<not> bit (unat b) 7" by (simp only: bit_iff_odd) simp
  then have "\<not> bit b 7" by (simp add: bit_unsigned_iff)
  then have "b AND 2 ^ 7 = 0" using and_exp_eq_0_iff_not_bit[of b 7] by blast
  with assms show False by simp
qed

lemma from_be_high_bit:
  assumes "byte0 k1 AND 0x80 \<noteq> 0"
  shows "256 ^ length k1 \<le> 2 * from_be k1"
proof (cases k1)
  case Nil
  with assms show ?thesis by (simp add: byte0_def)
next
  case (Cons b rest)
  with assms have "128 \<le> unat b" by (simp add: byte0_def high_bit_unat)
  then have "128 * 256 ^ length rest \<le> unat b * 256 ^ length rest" by simp
  also have "\<dots> \<le> from_be k1"
    using foldl_be_lower[of "unat b" rest] by (simp add: from_be_def Cons)
  finally show ?thesis by (simp add: Cons)
qed


section \<open>Properties of the MGM counters\<close>

lemma toInt32_small: "0 \<le> x \<Longrightarrow> x < 2 ^ 31 \<Longrightarrow> toInt32 x = x"
  by (simp add: toInt32_def Let_def)

lemma halfBlock_small: "blockSize < 2 ^ 32 \<Longrightarrow> halfBlock blockSize = int (blockSize div 2)"
  unfolding halfBlock_def by (rule toInt32_small) simp_all

lemma subarray_take: "subarray a 0 (int k) = take k a"
  by (simp add: subarray_def relativeIndex_def min_def)

lemma subarray_from_drop: "subarray_from a (int k) = drop k a"
  by (simp add: subarray_from_def relativeIndex_def min_def)

lemma incr_Inr:
  assumes "blockSize < 2 ^ 32" and "incr data blockSize = Inr r"
    and "length data = blockSize div 2"
  shows "length r = blockSize div 2" and "from_be r = from_be data + 1"
    and "from_be data + 1 < 256 ^ (blockSize div 2)"
proof -
  let ?h = "blockSize div 2"
  from assms(1,2) have r: "numberToBytesBE (from_be data + 1) (int ?h) = Inr r"
    by (simp add: incr_def bytesToNumberBE_from_be halfBlock_small)
  show v: "from_be r = from_be data + 1" using r by (rule numberToBytesBE_Inr(1))
  have "from_be data < 256 ^ ?h" using from_be_bound[of data] assms(3) by simp
  moreover have "from_be data + 1 \<noteq> 256 ^ ?h"
  proof
    assume "from_be data + 1 = 256 ^ ?h"
    with r numberToBytesBE_overflow[of ?h] show False by simp
  qed
  ultimately show lt: "from_be data + 1 < 256 ^ ?h" by simp
  then have "0 < ?h" by (cases "?h = 0") simp_all
  from numberToBytesBE_fits[OF this lt] r show "length r = ?h" by auto
qed

lemma incr_fits:
  assumes "blockSize < 2 ^ 32" and "from_be data + 1 < 256 ^ (blockSize div 2)"
  shows "\<exists>r. incr data blockSize = Inr r \<and> length r = blockSize div 2
           \<and> from_be r = from_be data + 1"
proof -
  let ?h = "blockSize div 2"
  have "0 < ?h" using assms(2) by (cases "?h = 0") simp_all
  from numberToBytesBE_fits[OF this assms(2)] assms(1) show ?thesis
    by (simp add: incr_def bytesToNumberBE_from_be halfBlock_small)
qed

lemma incr_overflow:
  assumes "blockSize < 2 ^ 32" and "from_be data + 1 = 256 ^ (blockSize div 2)"
  shows "incr data blockSize = Inl (HexOddLength (2 * (blockSize div 2) + 1))"
  using assms numberToBytesBE_overflow[of "blockSize div 2"]
  by (simp add: incr_def bytesToNumberBE_from_be halfBlock_small)

lemma incr_r_Inr:
  assumes "blockSize < 2 ^ 32" and "even blockSize" and "length data = blockSize"
    and "incr_r data blockSize = Inr r"
  shows "length r = blockSize"
    and "take (blockSize div 2) r = take (blockSize div 2) data"
    and "from_be (drop (blockSize div 2) r) = from_be (drop (blockSize div 2) data) + 1"
proof -
  let ?h = "blockSize div 2"
  from assms(1,4) obtain right where right: "incr (drop ?h data) blockSize = Inr right"
    and r: "r = take ?h data @ right"
    by (auto simp: incr_r_def halfBlock_small subarray_take subarray_from_drop concatBytes_def
        split: sum.splits)
  have len: "length (drop ?h data) = ?h" using assms(2,3) by auto
  note i = incr_Inr[OF assms(1) right len]
  have lt: "length (take ?h data) = ?h" using assms(3) by simp
  show "length r = blockSize" using i(1) lt assms(2) unfolding r by auto
  show "take ?h r = take ?h data" unfolding r using lt by simp
  show "from_be (drop ?h r) = from_be (drop ?h data) + 1" unfolding r using lt i(2) by simp
qed

lemma incr_l_Inr:
  assumes "blockSize < 2 ^ 32" and "even blockSize" and "length data = blockSize"
    and "incr_l data blockSize = Inr r"
  shows "length r = blockSize"
proof -
  let ?h = "blockSize div 2"
  from assms(1,4) obtain left where left: "incr (take ?h data) blockSize = Inr left"
    and r: "r = left @ drop ?h data"
    by (auto simp: incr_l_def halfBlock_small subarray_take subarray_from_drop concatBytes_def
        split: sum.splits)
  have len: "length (take ?h data) = ?h" using assms(2,3) by auto
  note i = incr_Inr[OF assms(1) left len]
  show "length r = blockSize" using i(1) assms(2,3) unfolding r by auto
qed

text \<open>The positive part of the increment: without overflow of the right half.\<close>

lemma incr_r_increments:
  assumes "blockSize < 2 ^ 32" and "even blockSize" and "length data = blockSize"
    and "from_be (drop (blockSize div 2) data) + 1 < 256 ^ (blockSize div 2)"
  shows "\<exists>right. incr_r data blockSize = Inr (take (blockSize div 2) data @ right)
           \<and> length right = blockSize div 2
           \<and> from_be right = from_be (drop (blockSize div 2) data) + 1"
  using incr_fits[OF assms(1,4)] assms(1)
  by (auto simp: incr_r_def halfBlock_small subarray_take subarray_from_drop concatBytes_def)

lemma from_be_ff: "from_be (replicate k 0xFF) + 1 = 256 ^ k"
proof -
  have u: "unat (0xFF::byte) = 255" by simp
  have "foldl (\<lambda>acc b. 256 * acc + unat (b::byte)) acc (replicate k 0xFF) + 1 = (acc + 1) * 256 ^ k"
    for acc
  proof (induction k arbitrary: acc)
    case 0
    show ?case by simp
  next
    case (Suc k)
    have "foldl (\<lambda>acc b. 256 * acc + unat (b::byte)) (256 * acc + 255) (replicate k 0xFF) + 1
            = (256 * acc + 255 + 1) * 256 ^ k" by (rule Suc.IH)
    moreover have "foldl (\<lambda>acc b. 256 * acc + unat (b::byte)) acc (replicate (Suc k) 0xFF)
            = foldl (\<lambda>acc b. 256 * acc + unat (b::byte)) (256 * acc + 255) (replicate k 0xFF)"
      by (simp only: replicate_Suc foldl_Cons u)
    ultimately show ?case by (simp only: power_Suc) (simp add: algebra_simps)
  qed
  from this[of 0] show ?thesis by (simp add: from_be_def)
qed

lemma incr_r_overflow:
  assumes "blockSize < 2 ^ 32" and "drop (blockSize div 2) data = replicate (blockSize div 2) 0xFF"
  shows "incr_r data blockSize = Inl (HexOddLength (2 * (blockSize div 2) + 1))"
proof -
  have "incr (drop (blockSize div 2) data) blockSize
          = Inl (HexOddLength (2 * (blockSize div 2) + 1))"
    using assms(1) unfolding assms(2) by (rule incr_overflow) (rule from_be_ff)
  then show ?thesis using assms(1)
    by (simp add: incr_r_def halfBlock_small subarray_from_drop)
qed

text \<open>
  Claim C3. The claim asks that \<^verbatim>\<open>incr_r\<close> wraps a right half of all 0xFF bytes around
  to zero. The code does not: the incremented number has one hexadecimal digit more than
  the half block holds, \<^verbatim>\<open>padStart\<close> leaves the odd-length string alone and
  \<^verbatim>\<open>hexToBytes\<close> throws. (Lemma \<open>incr_r_increments\<close> is the part of the claim that does
  hold, lemma \<open>incr_r_overflow\<close> the failure for every counter.)
\<close>

theorem incr_r_throws_at_overflow:
  "incr_r [0, 0, 0, 0, 0xFF, 0xFF, 0xFF, 0xFF] 8 = Inl (HexOddLength 9)"
proof -
  have small: "(8::nat) < 2 ^ 32" by simp
  have half: "(8::nat) div 2 = Suc (Suc (Suc (Suc 0)))" by simp
  have right: "drop (8 div 2) [0, 0, 0, 0, 0xFF, 0xFF, 0xFF, 0xFF :: byte] = replicate (8 div 2) 0xFF"
    unfolding half by simp
  from incr_r_overflow[OF small right] show ?thesis by simp
qed

section \<open>Properties of MGM\<close>

lemma MGM_new_Inr:
  assumes "MGM_new E bs ts = Inr m"
  shows "mgm_blockSize m = bs" and "bs = 8 \<or> bs = 16" and "mgm_encrypter m = E"
    and "4 \<le> mgm_tag_size m" and "mgm_tag_size m \<le> bs"
    and "mgm_max_size m = 2 ^ (bs * 4) - 1"
  using assms
  by (auto simp: MGM_new_def Let_def shiftLeft_def split: if_splits option.splits)

lemma length_xor_bytes: "length (xor_bytes a b) = min (length a) (length b)"
  by (simp add: xor_bytes_def)

lemma xor_bytes_twice: "xor_bytes k (xor_bytes k d) = take (length k) d"
proof (induction k arbitrary: d)
  case Nil
  show ?case by (simp add: xor_bytes_def)
next
  case (Cons x k)
  then show ?case by (cases d) (simp_all add: xor_bytes_def)
qed

lemma zip_append_short: "length k \<le> length c \<Longrightarrow> zip k (c @ rest) = zip k c"
proof (induction k arbitrary: c)
  case Nil
  show ?case by simp
next
  case (Cons x k)
  then show ?case by (cases c) simp_all
qed

lemma xor_bytes_append: "length k \<le> length c \<Longrightarrow> xor_bytes k (c @ rest) = xor_bytes k c"
  by (simp add: xor_bytes_def zip_append_short)

lemma mul_Inr_length:
  assumes "mul m a b = Inr p"
  shows "mgm_blockSize m \<le> length p"
proof -
  from assms obtain z where "numberToBytesBE z (int (mgm_blockSize m)) = Inr p"
    by (auto simp: mul_def split: sum.splits)
  from numberToBytesBE_Inr(2)[OF this] show ?thesis by simp
qed

lemma crypt_loop_involution:
  assumes "mgm_blockSize m = bs" and "bs = 8 \<or> bs = 16"
    and "blockFunction (mgm_encrypter m) bs"
    and "length enc = bs" and "crypt_loop m enc data res = Inr out"
  shows "\<exists>body. out = concat res @ body \<and> length body = length data
           \<and> (\<forall>res2. crypt_loop m enc body res2 = Inr (concat res2 @ data))"
  using assms
proof (induction m enc data res arbitrary: out rule: crypt_loop.induct)
  case (1 m enc data res)
  note bs = \<open>mgm_blockSize m = bs\<close>
  have small: "bs < 2 ^ 32" and ev: "even bs" and pos: "0 < bs" using 1(3) by auto
  show ?case
  proof (cases "length data > 0")
    case False
    with 1(6) have "out = concat res" by (simp add: crypt_loop.simps[of m enc data res] concatBytes_def)
    moreover from False have "crypt_loop m enc [] res2 = Inr (concat res2 @ data)" for res2
      by (simp add: crypt_loop.simps[of m enc "[]" res2] concatBytes_def)
    ultimately show ?thesis using False by auto
  next
    case True
    let ?K = "mgm_encrypter m enc"
    let ?chunk = "xor_bytes ?K data"
    from True 1(6) obtain enc' where enc': "incr_r enc bs = Inr enc'"
      and rec: "crypt_loop m enc' (drop bs data) (res @ [?chunk]) = Inr out"
      using pos
      by (auto simp: crypt_loop.simps[of m enc data res] bs subarray_from_drop
          split: sum.splits if_splits)
    have lenc': "length enc' = bs" using incr_r_Inr(1)[OF small ev 1(5) enc'] .
    have lK: "length ?K = bs" using 1(4,5) by (simp add: blockFunction_def)
    from 1(1)[OF True, of enc' out] enc' pos bs 1(2,3,4) lenc' rec
    obtain body' where out: "out = concat (res @ [?chunk]) @ body'"
      and lb: "length body' = length (drop bs data)"
      and again: "\<And>res2. crypt_loop m enc' body' res2 = Inr (concat res2 @ drop bs data)"
      by (auto simp: subarray_from_drop)
    let ?body = "?chunk @ body'"
    have lchunk: "length ?chunk = min bs (length data)" by (simp add: length_xor_bytes lK)
    have 1: "out = concat res @ ?body" using out by simp
    have 2: "length ?body = length data" using lchunk lb by auto
    have dropb: "drop bs ?body = body'"
    proof (cases "bs \<le> length data")
      case True
      then show ?thesis using lchunk by simp
    next
      case False
      then have "body' = []" using lb by simp
      then show ?thesis using lchunk by simp
    qed
    have xorb: "xor_bytes ?K ?body = take bs data"
    proof (cases "bs \<le> length data")
      case True
      then have "length ?K \<le> length ?chunk" using lchunk lK by simp
      then have "xor_bytes ?K ?body = xor_bytes ?K ?chunk" by (rule xor_bytes_append)
      then show ?thesis by (simp add: xor_bytes_twice lK)
    next
      case False
      then have "body' = []" using lb by simp
      then show ?thesis by (simp add: xor_bytes_twice lK)
    qed
    have 3: "crypt_loop m enc ?body res2 = Inr (concat res2 @ data)" for res2
    proof -
      have ne: "length ?body > 0" using 2 True by simp
      have "crypt_loop m enc ?body res2
              = crypt_loop m enc' (drop bs ?body) (res2 @ [xor_bytes ?K ?body])"
        using ne enc' pos
        by (subst crypt_loop.simps) (simp add: bs subarray_from_drop)
      also have "\<dots> = crypt_loop m enc' body' (res2 @ [take bs data])"
        by (simp only: dropb xorb)
      also have "\<dots> = Inr (concat (res2 @ [take bs data]) @ drop bs data)" by (rule again)
      finally show ?thesis by simp
    qed
    from 1 2 3 show ?thesis by blast
  qed
qed

lemma auth_loop_length:
  assumes "length asum = mgm_blockSize m" and "auth_loop m enc asum data = Inr (enc', asum')"
  shows "length asum' = mgm_blockSize m"
  using assms
proof (induction m enc asum data rule: auth_loop.induct)
  case (1 m enc asum data)
  show ?case
  proof (cases "length data > 0")
    case False
    with 1(3) show ?thesis using 1(2) by (simp add: auth_loop.simps[of m enc asum data])
  next
    case True
    from True 1(3) obtain padded product enc1 where
      p: "pad1 (subarray data 0 (int (mgm_blockSize m))) (mgm_blockSize m) = Inr padded"
      and pr: "mul m (mgm_encrypter m enc) padded = Inr product"
      and i: "incr_l enc (mgm_blockSize m) = Inr enc1"
      and nz: "mgm_blockSize m \<noteq> 0"
      and rec: "auth_loop m enc1 (xor_bytes asum product)
                  (subarray_from data (int (mgm_blockSize m))) = Inr (enc', asum')"
      by (auto simp: auth_loop.simps[of m enc asum data] split: sum.splits if_splits)
    have "length (xor_bytes asum product) = mgm_blockSize m"
      using mul_Inr_length[OF pr] 1(2) by (simp add: length_xor_bytes)
    from 1(1)[OF True p pr i nz this rec] show ?thesis .
  qed
qed

lemma auth_sum_length:
  assumes "blockFunction (mgm_encrypter m) (mgm_blockSize m)"
    and "mgm_tag_size m \<le> mgm_blockSize m"
    and "auth_sum m enc text ad = Inr tag"
  shows "length tag = mgm_tag_size m"
proof -
  from assms(3) obtain enc1 asum1 enc2 asum2 where
    a1: "auth_loop m enc (newUint8Array (mgm_blockSize m)) ad = Inr (enc1, asum1)"
    and a2: "auth_loop m enc1 asum1 text = Inr (enc2, asum2)"
    and f: "auth_final m enc2 asum2 (length ad) (length text) = Inr tag"
    by (auto simp: auth_sum_def Let_def split: sum.splits prod.splits)
  have "length (newUint8Array (mgm_blockSize m)) = mgm_blockSize m"
    by (simp add: newUint8Array_def)
  from auth_loop_length[OF this a1] have "length asum1 = mgm_blockSize m" .
  from auth_loop_length[OF this a2] have l2: "length asum2 = mgm_blockSize m" .
  from f obtain y product where pr: "mul m (mgm_encrypter m enc2) y = Inr product"
    and tag: "tag = subarray (mgm_encrypter m (xor_bytes asum2 product)) 0 (int (mgm_tag_size m))"
    by (auto simp: auth_final_def Let_def split: sum.splits)
  have "length (xor_bytes asum2 product) = mgm_blockSize m"
    using mul_Inr_length[OF pr] l2 by (simp add: length_xor_bytes)
  with assms(1) have "length (mgm_encrypter m (xor_bytes asum2 product)) = mgm_blockSize m"
    by (simp add: blockFunction_def)
  with assms(2) show ?thesis unfolding tag by (simp add: subarray_take)
qed

lemma or_and_byte0: "or_byte0 0x80 (and_byte0 0x7F a) = or_byte0 0x80 a"
proof (cases a)
  case Nil
  then show ?thesis by (simp add: or_byte0_def and_byte0_def)
next
  case (Cons b rest)
  have "(b AND 0x7F) OR 0x80 = b OR (0x80 :: byte)"
    by (rule bit_word_eqI) (auto simp: bit_simps bit_numeral_simps less_Suc_eq numeral_eq_Suc)
  with Cons show ?thesis by (simp add: or_byte0_def and_byte0_def)
qed

lemma and_or_byte0: "and_byte0 0x7F (or_byte0 0x80 a) = and_byte0 0x7F a"
proof (cases a)
  case Nil
  then show ?thesis by (simp add: or_byte0_def and_byte0_def)
next
  case (Cons b rest)
  have "(b OR 0x80) AND 0x7F = b AND (0x7F :: byte)"
    by (rule bit_word_eqI) (auto simp: bit_simps bit_numeral_simps less_Suc_eq numeral_eq_Suc)
  with Cons show ?thesis by (simp add: or_byte0_def and_byte0_def)
qed

lemma length_and_byte0: "length (and_byte0 v a) = length a"
  by (cases a) (simp_all add: and_byte0_def)

lemma length_or_byte0: "length (or_byte0 v a) = length a"
  by (cases a) (simp_all add: or_byte0_def)

lemma or_or_byte0: "or_byte0 0x80 (or_byte0 0x80 a) = or_byte0 0x80 a"
  by (cases a) (simp_all add: or_byte0_def)

lemma crypt_eq:
  "memoryOf icn < length s \<Longrightarrow> crypt m icn data s =
     (crypt_loop m (mgm_encrypter m (and_byte0 0x7F (s ! memoryOf icn))) data [],
      s[memoryOf icn := and_byte0 0x7F (s ! memoryOf icn)])"
  by (simp add: crypt_def Let_def)

lemma auth_eq:
  "memoryOf icn < length s \<Longrightarrow> auth m icn text ad s =
     (auth_sum m (mgm_encrypter m (or_byte0 0x80 (s ! memoryOf icn))) text ad,
      s[memoryOf icn := or_byte0 0x80 (s ! memoryOf icn)])"
  by (simp add: auth_def Let_def)

lemma icn_store_Uint8Array: "icn_store (Uint8Array a) s v = s @ [v]"
  by (simp add: icn_store_def)

lemma icn_store_Buffer: "icn_store (Buffer a) s v = s[a := v]"
  by (simp add: icn_store_def)

lemma icn_store_nonce:
  assumes "memoryOf nonce < length s"
  shows "memoryOf nonce < length (icn_store nonce s v)"
    and "icn_store nonce s v ! memoryOf nonce = (case nonce of Uint8Array a \<Rightarrow> s ! a | Buffer a \<Rightarrow> v)"
  using assms
  by (cases nonce; simp add: icn_store_Uint8Array icn_store_Buffer nth_append)+

lemma seal_eq:
  assumes "memoryOf nonce < length s"
  shows "seal m nonce plaintext ad s =
     (case validateSizes m plaintext ad of
        Inl e \<Rightarrow> (Inl e, s)
      | Inr u \<Rightarrow>
          (case crypt_loop m (mgm_encrypter m (and_byte0 0x7F (s ! memoryOf nonce))) plaintext [] of
             Inl e \<Rightarrow> (Inl e, icn_store nonce s (and_byte0 0x7F (s ! memoryOf nonce)))
           | Inr ct \<Rightarrow>
               (case auth_sum m (mgm_encrypter m (or_byte0 0x80 (s ! memoryOf nonce))) ct ad of
                  Inl e \<Rightarrow> (Inl e, icn_store nonce s (or_byte0 0x80 (s ! memoryOf nonce)))
                | Inr tag \<Rightarrow>
                    (Inr (ct @ tag), icn_store nonce s (or_byte0 0x80 (s ! memoryOf nonce))))))"
proof (cases nonce)
  case (Uint8Array a)
  let ?icn = "Uint8Array (length s)"
  have c: "crypt m ?icn plaintext (s @ [s ! a]) =
      (crypt_loop m (mgm_encrypter m (and_byte0 0x7F (s ! a))) plaintext [],
       s @ [and_byte0 0x7F (s ! a)])"
    by (simp add: crypt_eq)
  have a: "auth m ?icn ct ad (s @ [and_byte0 0x7F (s ! a)]) =
      (auth_sum m (mgm_encrypter m (or_byte0 0x80 (s ! a))) ct ad,
       s @ [or_byte0 0x80 (s ! a)])" for ct
    by (simp add: auth_eq or_and_byte0)
  show ?thesis
    unfolding seal_def Uint8Array
    by (simp add: c a concatBytes_def icn_store_Uint8Array split: sum.splits)
next
  case (Buffer a)
  with assms have lt: "a < length s" by simp
  have c: "crypt m (Buffer a) plaintext s =
      (crypt_loop m (mgm_encrypter m (and_byte0 0x7F (s ! a))) plaintext [],
       s[a := and_byte0 0x7F (s ! a)])"
    using lt by (simp add: crypt_eq)
  have a: "auth m (Buffer a) ct ad (s[a := and_byte0 0x7F (s ! a)]) =
      (auth_sum m (mgm_encrypter m (or_byte0 0x80 (s ! a))) ct ad,
       s[a := or_byte0 0x80 (s ! a)])" for ct
    using lt by (simp add: auth_eq or_and_byte0)
  show ?thesis
    unfolding seal_def Buffer
    by (simp add: c a concatBytes_def icn_store_Buffer split: sum.splits)
qed

lemma open_mgm_eq:
  assumes "memoryOf nonce < length s"
  shows "open_mgm m nonce ciphertext ad s =
     (case validateSizes m ciphertext ad of
        Inl e \<Rightarrow> (Inl e, s)
      | Inr u \<Rightarrow>
          (let ct = subarray ciphertext 0 (int (length ciphertext) - int (mgm_tag_size m));
               tag_expected =
                 subarray_from ciphertext (int (length ciphertext) - int (mgm_tag_size m))
           in case auth_sum m (mgm_encrypter m (or_byte0 0x80 (s ! memoryOf nonce))) ct ad of
                Inl e \<Rightarrow> (Inl e, icn_store nonce s (or_byte0 0x80 (s ! memoryOf nonce)))
              | Inr tag \<Rightarrow>
                  if tag_expected \<noteq> tag
                  then (Inl InvalidAuthenticationTag,
                        icn_store nonce s (or_byte0 0x80 (s ! memoryOf nonce)))
                  else (crypt_loop m (mgm_encrypter m (and_byte0 0x7F (s ! memoryOf nonce))) ct [],
                        icn_store nonce s (and_byte0 0x7F (s ! memoryOf nonce)))))"
proof (cases nonce)
  case (Uint8Array a)
  let ?icn = "Uint8Array (length s)"
  have a: "auth m ?icn ct ad (s @ [s ! a]) =
      (auth_sum m (mgm_encrypter m (or_byte0 0x80 (s ! a))) ct ad,
       s @ [or_byte0 0x80 (s ! a)])" for ct
    by (simp add: auth_eq)
  have c: "crypt m ?icn ct (s @ [or_byte0 0x80 (s ! a)]) =
      (crypt_loop m (mgm_encrypter m (and_byte0 0x7F (s ! a))) ct [],
       s @ [and_byte0 0x7F (s ! a)])" for ct
    by (simp add: crypt_eq and_or_byte0)
  show ?thesis
    unfolding open_mgm_def Uint8Array
    by (simp add: c a Let_def icn_store_Uint8Array split: sum.splits)
next
  case (Buffer a)
  with assms have lt: "a < length s" by simp
  have a: "auth m (Buffer a) ct ad s =
      (auth_sum m (mgm_encrypter m (or_byte0 0x80 (s ! a))) ct ad,
       s[a := or_byte0 0x80 (s ! a)])" for ct
    using lt by (simp add: auth_eq)
  have c: "crypt m (Buffer a) ct (s[a := or_byte0 0x80 (s ! a)]) =
      (crypt_loop m (mgm_encrypter m (and_byte0 0x7F (s ! a))) ct [],
       s[a := and_byte0 0x7F (s ! a)])" for ct
    using lt by (simp add: crypt_eq and_or_byte0)
  show ?thesis
    unfolding open_mgm_def Buffer
    by (simp add: c a Let_def icn_store_Buffer split: sum.splits)
qed

subsection \<open>When sealing returns\<close>

text \<open>
  The multiplication stays below \<open>2\<close> to the power \<open>8 * blockSize\<close>, so \<^verbatim>\<open>mul\<close> always
  returns a block. The loops of \<^verbatim>\<open>crypt\<close> and \<^verbatim>\<open>auth\<close> return when the counter half they
  increment does not pass its largest value, and the final step of \<^verbatim>\<open>auth\<close> returns when
  the two bit lengths fit a half block.
\<close>

lemma xor_nat_less:
  fixes a b :: nat
  assumes "a < 2 ^ n" and "b < 2 ^ n"
  shows "a XOR b < 2 ^ n"
proof -
  have "take_bit n (a XOR b) = a XOR b"
    using assms by (simp add: take_bit_xor take_bit_nat_eq_self)
  then show ?thesis by (simp only: take_bit_nat_eq_self_iff)
qed

lemma clear_top_bit:
  fixes x :: nat
  assumes "x < 2 ^ Suc k"
  shows "(if x AND 2 ^ k > 0 then x XOR 2 ^ k else x) = take_bit k x"
proof -
  have x: "take_bit (Suc k) x = x" using assms by (rule take_bit_nat_eq_self)
  show ?thesis
  proof (cases "bit x k")
    case True
    then have "x AND 2 ^ k \<noteq> 0" by (simp add: and_exp_eq_0_iff_not_bit)
    moreover have "x XOR 2 ^ k = take_bit k x"
    proof (rule bit_eqI)
      fix i
      have "bit x i \<longleftrightarrow> i < Suc k \<and> bit x i"
        using x by (metis bit_take_bit_iff)
      with True show "bit (x XOR 2 ^ k) i \<longleftrightarrow> bit (take_bit k x) i"
        by (auto simp: bit_simps less_Suc_eq)
    qed
    ultimately show ?thesis by simp
  next
    case False
    then have "x AND 2 ^ k = 0" by (simp add: and_exp_eq_0_iff_not_bit)
    moreover from False x have "take_bit k x = x"
      by (simp add: take_bit_Suc_from_most)
    ultimately show ?thesis by simp
  qed
qed

lemma mul_step_less:
  fixes x r :: nat
  assumes "x < 2 ^ Suc k" and "r < 2 ^ Suc k"
  shows "(if x AND 2 ^ k > 0 then push_bit 1 (x XOR 2 ^ k) XOR r else push_bit 1 x) < 2 ^ Suc k"
proof -
  have t: "take_bit k x < 2 ^ k" by simp
  then have p: "push_bit 1 (take_bit k x) < 2 ^ Suc k" by (simp add: push_bit_eq_mult)
  show ?thesis
  proof (cases "x AND 2 ^ k > 0")
    case True
    with clear_top_bit[OF assms(1)] have "x XOR 2 ^ k = take_bit k x" by simp
    moreover from p assms(2) have "push_bit 1 (take_bit k x) XOR r < 2 ^ Suc k"
      by (rule xor_nat_less)
    ultimately show ?thesis using True by (simp only: if_True)
  next
    case False
    with clear_top_bit[OF assms(1)] have "x = take_bit k x" by simp
    then have "push_bit 1 x < 2 ^ Suc k" using p by simp
    with False show ?thesis by (simp only: if_False)
  qed
qed

lemma mul_loop_less:
  assumes "max_bit = 2 ^ k" and "r < 2 ^ Suc k" and "x < 2 ^ Suc k" and "z < 2 ^ Suc k"
  shows "mul_loop max_bit r x y z < 2 ^ Suc k"
  using assms
proof (induction max_bit r x y z rule: mul_loop.induct)
  case (1 max_bit r x y z)
  show ?case
  proof (cases "y > 0")
    case False
    with 1(5) show ?thesis by (subst mul_loop.simps) simp
  next
    case True
    have x': "(if x AND max_bit > 0 then push_bit 1 (x XOR max_bit) XOR r else push_bit 1 x)
                < 2 ^ Suc k"
      unfolding 1(2) using 1(4) 1(3) by (rule mul_step_less)
    have z': "(if y AND 1 = 1 then z XOR x else z) < 2 ^ Suc k"
      using 1(4,5) xor_nat_less[of z "Suc k" x] by simp
    have "mul_loop max_bit r x y z =
            mul_loop max_bit r
              (if x AND max_bit > 0 then push_bit 1 (x XOR max_bit) XOR r else push_bit 1 x)
              (drop_bit 1 y) (if y AND 1 = 1 then z XOR x else z)"
      using True by (subst mul_loop.simps) simp
    also have "\<dots> < 2 ^ Suc k" using True 1(2) 1(3) x' z' by (rule 1(1))
    finally show ?thesis .
  qed
qed

lemma mul_returns:
  assumes "mgm_blockSize m = 8 \<or> mgm_blockSize m = 16" and "mgm_r m < 256"
    and "length a = mgm_blockSize m"
  shows "\<exists>p. mul m a b = Inr p \<and> length p = mgm_blockSize m"
proof -
  let ?bs = "mgm_blockSize m"
  obtain k where k: "?bs * 8 = Suc k" using assms(1) by (cases "?bs * 8") auto
  have mb: "shiftLeft 1 (int ?bs * 8 - 1) = 2 ^ k"
    using k by (simp add: shiftLeft_def nat_diff_distrib' flip: of_nat_mult)
  have "(256::nat) ^ ?bs = 2 ^ (8 * ?bs)" by (simp add: power_mult)
  then have p: "(256::nat) ^ ?bs = 2 ^ Suc k" using k by (simp add: mult.commute)
  have "(256::nat) ^ 1 \<le> 256 ^ ?bs" using assms(1) by (intro power_increasing) auto
  with assms(2) have r: "mgm_r m < 2 ^ Suc k" unfolding p by simp
  have x: "from_be a < 2 ^ Suc k" using from_be_bound[of a] assms(3) p by simp
  have "mul_loop (2 ^ k) (mgm_r m) (from_be a) (from_be b) 0 < 256 ^ ?bs"
    unfolding p using _ r x by (rule mul_loop_less) simp_all
  moreover have "0 < ?bs" using assms(1) by auto
  ultimately obtain res where
    "numberToBytesBE (mul_loop (2 ^ k) (mgm_r m) (from_be a) (from_be b) 0) (int ?bs) = Inr res"
    "length res = ?bs"
    using numberToBytesBE_fits by blast
  then show ?thesis unfolding mul_def bytesToNumberBE_from_be sum.case mb by simp
qed

lemma MGM_new_r: "MGM_new E bs ts = Inr m \<Longrightarrow> mgm_r m < 256"
  by (auto simp: MGM_new_def Let_def split: if_splits)

lemma ceilDiv_pos: "0 < bs \<Longrightarrow> 0 < n \<Longrightarrow> 0 < ceilDiv n bs"
  by (simp add: ceilDiv_def div_greater_zero_iff)

lemma ceilDiv_drop:
  assumes "0 < bs" and "0 < n"
  shows "ceilDiv (n - bs) bs = ceilDiv n bs - 1"
proof -
  have "bs \<le> n + bs - 1" using assms by simp
  with assms(1) have step: "(n + bs - 1) div bs = Suc ((n + bs - 1 - bs) div bs)"
    by (rule le_div_geq)
  show ?thesis
  proof (cases "bs \<le> n")
    case True
    then have "n - bs + bs - 1 = n + bs - 1 - bs" using assms by simp
    then show ?thesis using assms step by (simp add: ceilDiv_def)
  next
    case False
    then have "(n + bs - 1 - bs) div bs = 0" "n - bs = 0" using assms by simp_all
    then show ?thesis using assms step by (simp add: ceilDiv_def)
  qed
qed

lemma incr_l_increments:
  assumes "blockSize < 2 ^ 32" and "even blockSize" and "length data = blockSize"
    and "from_be (take (blockSize div 2) data) + 1 < 256 ^ (blockSize div 2)"
  shows "\<exists>left. incr_l data blockSize = Inr (left @ drop (blockSize div 2) data)
           \<and> length left = blockSize div 2
           \<and> from_be left = from_be (take (blockSize div 2) data) + 1"
  using incr_fits[OF assms(1,4)] assms(1)
  by (auto simp: incr_l_def halfBlock_small subarray_take subarray_from_drop concatBytes_def)

lemma crypt_loop_returns:
  assumes "mgm_blockSize m = bs" and "bs = 8 \<or> bs = 16" and "length enc = bs"
    and "from_be (drop (bs div 2) enc) + ceilDiv (length data) bs < 256 ^ (bs div 2)"
  shows "\<exists>out. crypt_loop m enc data res = Inr out"
  using assms
proof (induction m enc data res rule: crypt_loop.induct)
  case (1 m enc data res)
  note bs = \<open>mgm_blockSize m = bs\<close>
  have small: "bs < 2 ^ 32" and ev: "even bs" and pos: "0 < bs" using 1(3) by auto
  let ?h = "bs div 2"
  show ?case
  proof (cases "length data > 0")
    case False
    then show ?thesis by (subst crypt_loop.simps) simp
  next
    case True
    have c: "0 < ceilDiv (length data) bs" using pos True by (rule ceilDiv_pos)
    with 1(5) have "from_be (drop ?h enc) + 1 < 256 ^ ?h" by simp
    from incr_r_increments[OF small ev 1(4) this]
    obtain right where e: "incr_r enc bs = Inr (take ?h enc @ right)"
      and lr: "length right = ?h" and vr: "from_be right = from_be (drop ?h enc) + 1"
      by blast
    let ?enc' = "take ?h enc @ right"
    have lt: "length (take ?h enc) = ?h" using 1(4) by simp
    have le: "length ?enc' = bs" using lt lr ev by auto
    have dr: "drop ?h ?enc' = right" using lt by simp
    have cnt: "from_be (drop ?h ?enc') + ceilDiv (length (drop bs data)) bs < 256 ^ ?h"
      unfolding dr vr using 1(5) c ceilDiv_drop[OF pos True] by simp
    from 1(1)[OF True, of ?enc'] e pos bs 1(3) le cnt
    obtain out where "crypt_loop m ?enc' (drop bs data)
        (res @ [xor_bytes (mgm_encrypter m enc) data]) = Inr out"
      by (auto simp: subarray_from_drop)
    then show ?thesis
      using True e pos by (subst crypt_loop.simps) (simp add: bs subarray_from_drop)
  qed
qed

lemma auth_loop_returns:
  assumes "mgm_blockSize m = bs" and "bs = 8 \<or> bs = 16" and "mgm_r m < 256"
    and "blockFunction (mgm_encrypter m) bs" and "length enc = bs"
    and "from_be (take (bs div 2) enc) + ceilDiv (length data) bs < 256 ^ (bs div 2)"
  shows "\<exists>enc' asum'. auth_loop m enc asum data = Inr (enc', asum') \<and> length enc' = bs
           \<and> from_be (take (bs div 2) enc')
               = from_be (take (bs div 2) enc) + ceilDiv (length data) bs"
  using assms
proof (induction m enc asum data rule: auth_loop.induct)
  case (1 m enc asum data)
  note bs = \<open>mgm_blockSize m = bs\<close>
  have small: "bs < 2 ^ 32" and ev: "even bs" and pos: "0 < bs" using 1(3) by auto
  let ?h = "bs div 2"
  show ?case
  proof (cases "length data > 0")
    case False
    then show ?thesis using 1(6) by (subst auth_loop.simps) (simp add: ceilDiv_def)
  next
    case True
    have c: "0 < ceilDiv (length data) bs" using pos True by (rule ceilDiv_pos)
    obtain padded where p: "pad1 (subarray data 0 (int bs)) bs = Inr padded"
      using pad1_pos[OF pos] by blast
    have "length (mgm_encrypter m enc) = mgm_blockSize m"
      using 1(5,6) bs by (simp add: blockFunction_def)
    from mul_returns[OF _ 1(4) this, of padded] 1(3) bs
    obtain product where pr: "mul m (mgm_encrypter m enc) padded = Inr product" by auto
    from 1(7) c have "from_be (take ?h enc) + 1 < 256 ^ ?h" by simp
    from incr_l_increments[OF small ev 1(6) this]
    obtain left where e: "incr_l enc bs = Inr (left @ drop ?h enc)"
      and ll: "length left = ?h" and vl: "from_be left = from_be (take ?h enc) + 1"
      by blast
    let ?enc' = "left @ drop ?h enc"
    have le: "length ?enc' = bs" using ll 1(6) ev by auto
    have tk: "take ?h ?enc' = left" using ll by simp
    have cnt: "from_be (take ?h ?enc') + ceilDiv (length (drop bs data)) bs < 256 ^ ?h"
      unfolding tk vl using 1(7) c ceilDiv_drop[OF pos True] by simp
    have nz: "mgm_blockSize m \<noteq> 0" using pos bs by simp
    from 1(1)[OF True, of padded product ?enc'] p pr e nz bs 1(3,4,5) le cnt
    obtain enc' asum' where
      r: "auth_loop m ?enc' (xor_bytes asum product) (drop bs data) = Inr (enc', asum')"
      and l': "length enc' = bs"
      and v': "from_be (take ?h enc') = from_be (take ?h ?enc') + ceilDiv (length (drop bs data)) bs"
      by (auto simp: subarray_from_drop)
    have "auth_loop m enc asum data = Inr (enc', asum')"
      using True p pr e pos r by (subst auth_loop.simps) (simp add: bs subarray_from_drop)
    moreover have "from_be (take ?h enc') = from_be (take ?h enc) + ceilDiv (length data) bs"
      unfolding v' tk vl using c ceilDiv_drop[OF pos True] by simp
    ultimately show ?thesis using l' by blast
  qed
qed

lemma auth_final_returns:
  assumes "mgm_blockSize m = bs" and "bs = 8 \<or> bs = 16" and "mgm_r m < 256"
    and "blockFunction (mgm_encrypter m) bs" and "length enc = bs"
    and "ad_len * 8 < 256 ^ (bs div 2)" and "text_len * 8 < 256 ^ (bs div 2)"
  shows "\<exists>tag. auth_final m enc asum ad_len text_len = Inr tag"
proof -
  have small: "bs < 2 ^ 32" and pos: "0 < bs div 2" using assms(2) by auto
  from numberToBytesBE_fits[OF pos assms(6)]
  obtain adBits where a: "numberToBytesBE (ad_len * 8) (int (bs div 2)) = Inr adBits" by blast
  from numberToBytesBE_fits[OF pos assms(7)]
  obtain textBits where t: "numberToBytesBE (text_len * 8) (int (bs div 2)) = Inr textBits"
    by blast
  have "length (mgm_encrypter m enc) = mgm_blockSize m"
    using assms(1,4,5) by (simp add: blockFunction_def)
  from mul_returns[OF _ assms(3) this, of "concatBytes [adBits, textBits]"] assms(1,2)
  obtain product where
    "mul m (mgm_encrypter m enc) (concatBytes [adBits, textBits]) = Inr product" by auto
  then show ?thesis
    using a t small by (simp add: auth_final_def assms(1) halfBlock_small)
qed

lemma crypt_loop_length:
  assumes "mgm_blockSize m = bs" and "bs = 8 \<or> bs = 16"
    and "blockFunction (mgm_encrypter m) bs"
    and "length enc = bs" and "crypt_loop m enc data [] = Inr out"
  shows "length out = length data"
  using crypt_loop_involution[OF assms] by auto

lemma half_block_power:
  assumes "bs = 8 \<or> bs = 16"
  shows "(256::nat) ^ (bs div 2) = 2 ^ (bs * 4)"
proof -
  have "(256::nat) ^ (bs div 2) = 2 ^ (8 * (bs div 2))" by (simp add: power_mult)
  moreover have "8 * (bs div 2) = bs * 4" using assms by auto
  ultimately show ?thesis by simp
qed

lemma seal_returns:
  assumes new: "MGM_new E bs ts = Inr m"
    and bf: "blockFunction E bs"
    and nonce: "memoryOf nonce < length s" "length (s ! memoryOf nonce) = bs"
    and nonempty: "p \<noteq> [] \<or> ad \<noteq> []"
    and bitsP: "length p * 8 < 256 ^ (bs div 2)"
    and bitsA: "length ad * 8 < 256 ^ (bs div 2)"
    and cntE: "from_be (drop (bs div 2) (E (and_byte0 0x7F (s ! memoryOf nonce))))
                 + ceilDiv (length p) bs < 256 ^ (bs div 2)"
    and cntA: "from_be (take (bs div 2) (E (or_byte0 0x80 (s ! memoryOf nonce))))
                 + ceilDiv (length ad) bs + ceilDiv (length p) bs < 256 ^ (bs div 2)"
  shows "\<exists>c. seal m nonce p ad s
               = (Inr c, icn_store nonce s (or_byte0 0x80 (s ! memoryOf nonce)))
           \<and> length c = length p + mgm_tag_size m"
proof -
  note m = MGM_new_Inr[OF new]
  note r = MGM_new_r[OF new]
  let ?h = "bs div 2"
  let ?N = "s ! memoryOf nonce"
  let ?E0 = "mgm_encrypter m (and_byte0 0x7F ?N)"
  let ?A0 = "mgm_encrypter m (or_byte0 0x80 ?N)"
  have bfm: "blockFunction (mgm_encrypter m) bs" using bf m(3) by simp
  have lE0: "length ?E0 = bs"
    using bf nonce(2) by (simp add: m(3) blockFunction_def length_and_byte0)
  have lA0: "length ?A0 = bs"
    using bf nonce(2) by (simp add: m(3) blockFunction_def length_or_byte0)
  have "length p + length ad < 2 ^ (bs * 4)"
    using bitsP bitsA unfolding half_block_power[OF m(2)] by linarith
  then have v: "validateSizes m p ad = Inr ()"
    using nonempty by (auto simp: validateSizes_def m(6))
  from crypt_loop_returns[OF m(1) m(2) lE0, of p "[]"] cntE m(3)
  obtain ct where ct: "crypt_loop m ?E0 p [] = Inr ct" by auto
  have lct: "length ct = length p"
    using m(1) m(2) bfm lE0 ct by (rule crypt_loop_length)
  from cntA have cA1: "from_be (take ?h ?A0) + ceilDiv (length ad) bs < 256 ^ ?h"
    by (simp add: m(3))
  from auth_loop_returns[OF m(1) m(2) r bfm lA0 cA1, of "newUint8Array (mgm_blockSize m)"]
  obtain enc1 asum1 where a1: "auth_loop m ?A0 (newUint8Array (mgm_blockSize m)) ad = Inr (enc1, asum1)"
    and l1: "length enc1 = bs"
    and v1: "from_be (take ?h enc1) = from_be (take ?h ?A0) + ceilDiv (length ad) bs"
    by blast
  have cA2: "from_be (take ?h enc1) + ceilDiv (length ct) bs < 256 ^ ?h"
    unfolding v1 lct using cntA by (simp add: m(3))
  from auth_loop_returns[OF m(1) m(2) r bfm l1 cA2, of asum1]
  obtain enc2 asum2 where a2: "auth_loop m enc1 asum1 ct = Inr (enc2, asum2)"
    and l2: "length enc2 = bs"
    by blast
  from auth_final_returns[OF m(1) m(2) r bfm l2 bitsA, of "length ct" asum2] bitsP lct
  obtain tag where f: "auth_final m enc2 asum2 (length ad) (length ct) = Inr tag" by auto
  have tag: "auth_sum m ?A0 ct ad = Inr tag"
    by (simp add: auth_sum_def a1 a2 f)
  have "blockFunction (mgm_encrypter m) (mgm_blockSize m)" using bfm m(1) by simp
  from auth_sum_length[OF this _ tag] m(1,5) have ltag: "length tag = mgm_tag_size m" by simp
  have "seal m nonce p ad s = (Inr (ct @ tag), icn_store nonce s (or_byte0 0x80 ?N))"
    using nonce(1) by (simp add: seal_eq v ct tag)
  then show ?thesis using lct ltag by simp
qed

text \<open>
  A \<^verbatim>\<open>seal\<close> that returns has written both bit lengths into a half block, so the sealed
  message with the additional data passes the size check of \<^verbatim>\<open>open\<close>.
\<close>

lemma numberToBytesBE_Inr_less:
  assumes "numberToBytesBE n (int len) = Inr r" and "n < 16 * 256 ^ len"
  shows "n < 256 ^ len"
proof (rule ccontr)
  assume "\<not> n < 256 ^ len"
  then have "256 ^ len \<le> n" by simp
  from numberToBytesBE_one_digit_over[OF this assms(2)] assms(1) show False by simp
qed

lemma seal_Inr_size:
  assumes new: "MGM_new E bs ts = Inr m"
    and bf: "blockFunction E bs"
    and nonce: "memoryOf nonce < length s" "length (s ! memoryOf nonce) = bs"
    and sealed: "seal m nonce p ad s = (Inr c, s')"
  shows "length c + length ad \<le> mgm_max_size m"
proof -
  note m = MGM_new_Inr[OF new]
  let ?h = "bs div 2"
  let ?N = "s ! memoryOf nonce"
  let ?E0 = "mgm_encrypter m (and_byte0 0x7F ?N)"
  let ?A0 = "mgm_encrypter m (or_byte0 0x80 ?N)"
  from sealed nonce(1) obtain ct tag where
    v: "validateSizes m p ad = Inr ()"
    and ct: "crypt_loop m ?E0 p [] = Inr ct"
    and tag: "auth_sum m ?A0 ct ad = Inr tag"
    and c: "c = ct @ tag"
    by (auto simp: seal_eq split: sum.splits)
  have bfm: "blockFunction (mgm_encrypter m) bs" using bf m(3) by simp
  have bfm': "blockFunction (mgm_encrypter m) (mgm_blockSize m)" using bfm m(1) by simp
  have ltag: "length tag = mgm_tag_size m"
    using auth_sum_length[OF bfm' _ tag] m(1,5) by simp
  have lE0: "length ?E0 = bs"
    using bf nonce(2) by (simp add: m(3) blockFunction_def length_and_byte0)
  have lct: "length ct = length p"
    using m(1) m(2) bfm lE0 ct by (rule crypt_loop_length)
  have half: "halfBlock (mgm_blockSize m) = int ?h"
    using m(1) m(2) by (intro halfBlock_small[THEN trans]) auto
  from tag obtain adBits textBits where
    ab: "numberToBytesBE (length ad * 8) (int ?h) = Inr adBits"
    and tb: "numberToBytesBE (length ct * 8) (int ?h) = Inr textBits"
    by (auto simp: auth_sum_def auth_final_def half Let_def split: sum.splits)
  from v have le: "length p + length ad < 2 ^ (bs * 4)"
    using m(2) by (auto simp: validateSizes_def m(6) split: if_splits)
  have p16: "(16::nat) * 256 ^ ?h = 16 * 2 ^ (bs * 4)"
    by (simp add: half_block_power[OF m(2)])
  have "length ad * 8 < 16 * 256 ^ ?h" using le unfolding p16 by linarith
  with ab have bitsA: "length ad * 8 < 256 ^ ?h" by (rule numberToBytesBE_Inr_less)
  have "length ct * 8 < 16 * 256 ^ ?h" using le unfolding p16 lct by linarith
  with tb have bitsP: "length p * 8 < 256 ^ ?h" unfolding lct by (rule numberToBytesBE_Inr_less)
  have "8 * bs < (2::nat) ^ (bs * 4)" using m(2) by auto
  with bitsP bitsA have "length c + length ad < 2 ^ (bs * 4)"
    using ltag lct m(5) unfolding half_block_power[OF m(2)] c by simp
  then show ?thesis by (simp add: m(6))
qed

lemma open_after_seal:
  assumes new: "MGM_new E bs ts = Inr m"
    and bf: "blockFunction E bs"
    and nonce: "memoryOf nonce < length s" "length (s ! memoryOf nonce) = bs"
    and sealed: "seal m nonce p ad s = (Inr c, s')"
    and t: "memoryOf nonce < length t"
      "and_byte0 0x7F (t ! memoryOf nonce) = and_byte0 0x7F (s ! memoryOf nonce)"
      "or_byte0 0x80 (t ! memoryOf nonce) = or_byte0 0x80 (s ! memoryOf nonce)"
  shows "fst (open_mgm m nonce c ad t) = Inr p"
proof -
  note m = MGM_new_Inr[OF new]
  let ?N = "s ! memoryOf nonce"
  let ?E0 = "mgm_encrypter m (and_byte0 0x7F ?N)"
  let ?A0 = "mgm_encrypter m (or_byte0 0x80 ?N)"
  from sealed nonce(1) obtain ct tag where
    v: "validateSizes m p ad = Inr ()"
    and ct: "crypt_loop m ?E0 p [] = Inr ct"
    and tag: "auth_sum m ?A0 ct ad = Inr tag"
    and c: "c = ct @ tag"
    by (auto simp: seal_eq split: sum.splits)
  have size: "length c + length ad \<le> mgm_max_size m"
    using new bf nonce sealed by (rule seal_Inr_size)
  have bfm: "blockFunction (mgm_encrypter m) (mgm_blockSize m)" using bf m(1,3) by simp
  have ltag: "length tag = mgm_tag_size m"
    using auth_sum_length[OF bfm _ tag] m(1,5) by simp
  have lE0: "length ?E0 = bs"
    using bf nonce(2) by (simp add: m(3) blockFunction_def length_and_byte0)
  from crypt_loop_involution[OF m(1) m(2) _ lE0 ct] bf m(3)
  have inv: "crypt_loop m ?E0 ct [] = Inr p" by auto
  have v2: "validateSizes m c ad = Inr ()"
    using size ltag m(4) by (auto simp: validateSizes_def c)
  have split1: "subarray c 0 (int (length c) - int (mgm_tag_size m)) = ct"
    using ltag by (simp add: c subarray_def relativeIndex_def)
  have split2: "subarray_from c (int (length c) - int (mgm_tag_size m)) = tag"
    using ltag by (simp add: c subarray_from_def relativeIndex_def)
  show ?thesis
    using t(1) by (simp add: open_mgm_eq v2 split1 split2 t(2,3) tag inv Let_def)
qed

lemma seal_snd:
  assumes "memoryOf nonce < length s" and "seal m nonce p ad s = (Inr c, s')"
  shows "s' = icn_store nonce s (or_byte0 0x80 (s ! memoryOf nonce))"
  using assms by (auto simp: seal_eq split: sum.splits)

text \<open>
  The round trip where \<^verbatim>\<open>seal\<close> returns: \<^verbatim>\<open>open\<close>, called with the same nonce array
  on the store \<^verbatim>\<open>seal\<close> left, returns the plaintext. For a \<^verbatim>\<open>Buffer\<close> nonce the store holds
  the nonce with its top bit set, which \<^verbatim>\<open>open\<close> clears and sets again.
\<close>

lemma mgm_open_seal:
  assumes new: "MGM_new E bs ts = Inr m"
    and bf: "blockFunction E bs"
    and nonce: "memoryOf nonce < length s" "length (s ! memoryOf nonce) = bs"
    and sealed: "seal m nonce p ad s = (Inr c, s')"
  shows "fst (open_mgm m nonce c ad s') = Inr p"
proof -
  let ?a = "memoryOf nonce"
  have s': "s' = icn_store nonce s (or_byte0 0x80 (s ! ?a))"
    using nonce(1) sealed by (rule seal_snd)
  have t1: "?a < length s'" unfolding s' using nonce(1) by (rule icn_store_nonce(1))
  have t2: "and_byte0 0x7F (s' ! ?a) = and_byte0 0x7F (s ! ?a)"
    unfolding s' icn_store_nonce(2)[OF nonce(1)]
    by (cases nonce) (simp_all add: and_or_byte0)
  have t3: "or_byte0 0x80 (s' ! ?a) = or_byte0 0x80 (s ! ?a)"
    unfolding s' icn_store_nonce(2)[OF nonce(1)]
    by (cases nonce) (simp_all add: or_or_byte0)
  from new bf nonce sealed t1 t2 t3 show ?thesis by (rule open_after_seal)
qed

lemma seal_then_open_returns:
  assumes new: "MGM_new E bs ts = Inr m"
    and bf: "blockFunction E bs"
    and nonce: "memoryOf nonce < length s" "length (s ! memoryOf nonce) = bs"
    and nonempty: "p \<noteq> [] \<or> ad \<noteq> []"
    and bitsP: "length p * 8 < 256 ^ (bs div 2)"
    and bitsA: "length ad * 8 < 256 ^ (bs div 2)"
    and cntE: "from_be (drop (bs div 2) (E (and_byte0 0x7F (s ! memoryOf nonce))))
                 + ceilDiv (length p) bs < 256 ^ (bs div 2)"
    and cntA: "from_be (take (bs div 2) (E (or_byte0 0x80 (s ! memoryOf nonce))))
                 + ceilDiv (length ad) bs + ceilDiv (length p) bs < 256 ^ (bs div 2)"
  shows "\<exists>c s'. seal m nonce p ad s = (Inr c, s') \<and> fst (open_mgm m nonce c ad s') = Inr p"
proof -
  from seal_returns[OF assms]
  obtain c where c: "seal m nonce p ad s
                       = (Inr c, icn_store nonce s (or_byte0 0x80 (s ! memoryOf nonce)))"
    by blast
  from mgm_open_seal[OF new bf nonce c] c show ?thesis by blast
qed

subsection \<open>Evaluation on concrete inputs\<close>

lemma replicate_numeral_unfold: "replicate (numeral k) x = x # replicate (numeral k - 1) x"
  by (simp add: numeral_eq_Suc)

lemmas eval_utils = numberToBytesBE_digits paddedDigits_def hexDigits.simps replicate_numeral_unfold
  from_be_def bytesToNumberBE_from_be

lemmas eval_mgm = crypt_loop.simps auth_loop.simps mul_loop.simps xor_bytes_def incr_r_def
  incr_l_def incr_def halfBlock_def toInt32_def subarray_def subarray_from_def relativeIndex_def
  concatBytes_def auth_sum_def auth_final_def mul_def pad1_def getPadLength_def jsmod_def
  paddedLength_def typed_set_def newUint8Array_def shiftLeft_def validateSizes_def or_byte0_def
  and_byte0_def

text \<open>An MGM instance over the identity block function, used in the examples below.\<close>

lemma MGM_new_example:
  "MGM_new (\<lambda>b. b) 8 None =
     Inr \<lparr>mgm_tag_size = 8, mgm_encrypter = \<lambda>b. b, mgm_blockSize = 8,
          mgm_max_size = 4294967295, mgm_r = 27\<rparr>"
  by (simp add: MGM_new_def shiftLeft_def)

lemma blockFunction_id: "blockFunction (\<lambda>b. b) bs"
  by (simp add: blockFunction_def)

lemma crypt_loop_example:
  "crypt_loop \<lparr>mgm_tag_size = 8, mgm_encrypter = \<lambda>b. b, mgm_blockSize = 8,
                mgm_max_size = 4294967295, mgm_r = 27\<rparr>
     [1, 2, 3, 4, 5, 6, 7, 8] [0x10, 0x20, 0x30, 0x40, 0x50, 0x60, 0x70, 0x80, 0x90] []
   = Inr [17, 34, 51, 68, 85, 102, 119, 136, 145]"
  by (simp add: eval_mgm eval_utils cong: sum.case_cong_weak prod.case_cong_weak)

lemma auth_sum_example:
  "auth_sum \<lparr>mgm_tag_size = 8, mgm_encrypter = \<lambda>b. b, mgm_blockSize = 8,
              mgm_max_size = 4294967295, mgm_r = 27\<rparr>
     [0x81, 2, 3, 4, 5, 6, 7, 8] [17, 34, 51, 68, 85, 102, 119, 136, 145] [9]
   = Inr [89, 183, 41, 98, 86, 11, 14, 154]"
  by (simp add: eval_mgm eval_utils Let_def cong: sum.case_cong_weak prod.case_cong_weak)

lemma crypt_loop_example_back:
  "crypt_loop \<lparr>mgm_tag_size = 8, mgm_encrypter = \<lambda>b. b, mgm_blockSize = 8,
               mgm_max_size = 4294967295, mgm_r = 27\<rparr>
     [1, 2, 3, 4, 5, 6, 7, 8] [17, 34, 51, 68, 85, 102, 119, 136, 145] []
   = Inr [0x10, 0x20, 0x30, 0x40, 0x50, 0x60, 0x70, 0x80, 0x90]"
  by (simp add: eval_mgm eval_utils cong: sum.case_cong_weak prod.case_cong_weak)

lemma seal_example:
  "seal \<lparr>mgm_tag_size = 8, mgm_encrypter = \<lambda>b. b, mgm_blockSize = 8,
         mgm_max_size = 4294967295, mgm_r = 27\<rparr>
     (Uint8Array 0) [0x10, 0x20, 0x30, 0x40, 0x50, 0x60, 0x70, 0x80, 0x90] [9]
     [[0x81, 2, 3, 4, 5, 6, 7, 8]]
   = (Inr [17, 34, 51, 68, 85, 102, 119, 136, 145, 89, 183, 41, 98, 86, 11, 14, 154],
      [[0x81, 2, 3, 4, 5, 6, 7, 8], [0x81, 2, 3, 4, 5, 6, 7, 8]])"
  by (simp add: seal_eq icn_store_Uint8Array validateSizes_def and_byte0_def or_byte0_def
      crypt_loop_example auth_sum_example)

lemma seal_Buffer_example:
  "seal \<lparr>mgm_tag_size = 8, mgm_encrypter = \<lambda>b. b, mgm_blockSize = 8,
         mgm_max_size = 4294967295, mgm_r = 27\<rparr>
     (Buffer 0) [0x10, 0x20, 0x30, 0x40, 0x50, 0x60, 0x70, 0x80, 0x90] [9]
     [[0x01, 2, 3, 4, 5, 6, 7, 8]]
   = (Inr [17, 34, 51, 68, 85, 102, 119, 136, 145, 89, 183, 41, 98, 86, 11, 14, 154],
      [[0x81, 2, 3, 4, 5, 6, 7, 8]])"
  by (simp add: seal_eq icn_store_Buffer validateSizes_def and_byte0_def or_byte0_def
      crypt_loop_example auth_sum_example)

lemma open_mgm_example:
  "open_mgm \<lparr>mgm_tag_size = 8, mgm_encrypter = \<lambda>b. b, mgm_blockSize = 8,
             mgm_max_size = 4294967295, mgm_r = 27\<rparr>
     (Uint8Array 0) [17, 34, 51, 68, 85, 102, 119, 136, 145, 89, 183, 41, 98, 86, 11, 14, 154] [9]
     [[0x81, 2, 3, 4, 5, 6, 7, 8]]
   = (Inr [0x10, 0x20, 0x30, 0x40, 0x50, 0x60, 0x70, 0x80, 0x90],
      [[0x81, 2, 3, 4, 5, 6, 7, 8], [0x01, 2, 3, 4, 5, 6, 7, 8]])"
  by (simp add: open_mgm_eq icn_store_Uint8Array validateSizes_def and_byte0_def or_byte0_def
      subarray_def subarray_from_def relativeIndex_def crypt_loop_example_back auth_sum_example)

lemma open_mgm_Buffer_example:
  "open_mgm \<lparr>mgm_tag_size = 8, mgm_encrypter = \<lambda>b. b, mgm_blockSize = 8,
             mgm_max_size = 4294967295, mgm_r = 27\<rparr>
     (Buffer 0) [17, 34, 51, 68, 85, 102, 119, 136, 145, 89, 183, 41, 98, 86, 11, 14, 154] [9]
     [[0x81, 2, 3, 4, 5, 6, 7, 8]]
   = (Inr [0x10, 0x20, 0x30, 0x40, 0x50, 0x60, 0x70, 0x80, 0x90],
      [[0x01, 2, 3, 4, 5, 6, 7, 8]])"
  by (simp add: open_mgm_eq icn_store_Buffer validateSizes_def and_byte0_def or_byte0_def
      subarray_def subarray_from_def relativeIndex_def crypt_loop_example_back auth_sum_example)

lemma incr_r_ff_example:
  "incr_r [0, 0, 0, 0, 0xFF, 0xFF, 0xFF, 0xFF] 8 = Inl (HexOddLength 9)"
proof -
  have small: "(8::nat) < 2 ^ 32" by simp
  have half: "(8::nat) div 2 = Suc (Suc (Suc (Suc 0)))" by simp
  have right: "drop (8 div 2) [0, 0, 0, 0, 0xFF, 0xFF, 0xFF, 0xFF :: byte] = replicate (8 div 2) 0xFF"
    unfolding half by simp
  from incr_r_overflow[OF small right] show ?thesis by simp
qed

subsection \<open>Round trip\<close>

text \<open>The round trip of lemma \<open>mgm_open_seal\<close> on a nine-byte plaintext and one byte of
  additional data.\<close>

lemma mgm_open_seal_example:
  "fst (open_mgm \<lparr>mgm_tag_size = 8, mgm_encrypter = \<lambda>b. b, mgm_blockSize = 8,
                  mgm_max_size = 4294967295, mgm_r = 27\<rparr>
          (Uint8Array 0)
          [17, 34, 51, 68, 85, 102, 119, 136, 145, 89, 183, 41, 98, 86, 11, 14, 154] [9]
          [[0x81, 2, 3, 4, 5, 6, 7, 8], [0x81, 2, 3, 4, 5, 6, 7, 8]])
     = Inr [0x10, 0x20, 0x30, 0x40, 0x50, 0x60, 0x70, 0x80, 0x90]"
proof -
  let ?s = "[[0x81, 2, 3, 4, 5, 6, 7, 8 :: byte]]"
  have n1: "memoryOf (Uint8Array 0) < length ?s" by simp
  have n2: "length (?s ! memoryOf (Uint8Array 0)) = 8" by simp
  from mgm_open_seal[OF MGM_new_example blockFunction_id n1 n2 seal_example]
  show ?thesis .
qed

text \<open>
  Claim C1. The claim asks that \<^verbatim>\<open>open\<close> gives back the plaintext of every admissible
  \<^verbatim>\<open>seal\<close>. The code does not seal every admissible input: with the identity block
  function (a block function by lemma \<open>blockFunction_id\<close>), block size 8, the nonce 00 00 00 00 FF FF FF FF, the one-byte plaintext 01 and no
  additional data, the right half of the encryption counter is all 0xFF bytes and \<^verbatim>\<open>seal\<close>
  throws in \<^verbatim>\<open>incr_r\<close> after the first keystream block, so there is no sealed message to
  open. (Where \<^verbatim>\<open>seal\<close> returns, \<^verbatim>\<open>open\<close> returns the plaintext: lemma \<open>mgm_open_seal\<close>;
  and \<^verbatim>\<open>seal\<close> returns when no counter half passes its largest value: lemma
  \<open>seal_returns\<close>.)
\<close>

theorem seal_throws_counterexample:
  "MGM_new (\<lambda>b. b) 8 None =
     Inr \<lparr>mgm_tag_size = 8, mgm_encrypter = \<lambda>b. b, mgm_blockSize = 8,
          mgm_max_size = 4294967295, mgm_r = 27\<rparr>
   \<and> length [0, 0, 0, 0, 0xFF, 0xFF, 0xFF, 0xFF :: byte] = 8
   \<and> length [1 :: byte] + length ([] :: bytes) \<le> 4294967295
   \<and> fst (seal \<lparr>mgm_tag_size = 8, mgm_encrypter = \<lambda>b. b, mgm_blockSize = 8,
                     mgm_max_size = 4294967295, mgm_r = 27\<rparr>
            (Uint8Array 0) [1] [] [[0, 0, 0, 0, 0xFF, 0xFF, 0xFF, 0xFF]])
       = Inl (HexOddLength 9)"
proof -
  have "fst (seal \<lparr>mgm_tag_size = 8, mgm_encrypter = \<lambda>b. b, mgm_blockSize = 8,
                   mgm_max_size = 4294967295, mgm_r = 27\<rparr>
            (Uint8Array 0) [1] [] [[0, 0, 0, 0, 0xFF, 0xFF, 0xFF, 0xFF]])
       = Inl (HexOddLength 9)"
    by (simp add: seal_eq validateSizes_def and_byte0_def crypt_loop.simps incr_r_ff_example)
  then show ?thesis using MGM_new_example by simp
qed

subsection \<open>Tag verification\<close>

text \<open>
  Claim C4. When the tag that \<^verbatim>\<open>open\<close> recomputes (the result of its call of \<^verbatim>\<open>auth\<close>
  on the array that \<^verbatim>\<open>slice\<close> gave for the nonce) differs from the received tag, \<^verbatim>\<open>open\<close>
  fails with the authentication error ``Invalid authentication tag'' and returns no plaintext;
  the array that \<^verbatim>\<open>slice\<close> gave is left with its top bit set, as \<^verbatim>\<open>auth\<close> left it, so
  \<^verbatim>\<open>crypt\<close> was not run. And \<^verbatim>\<open>open\<close> returns a plaintext only when the recomputed tag is
  the received tag.
\<close>

theorem open_mgm_tag_mismatch:
  assumes "memoryOf nonce < length s"
  shows "(\<forall>tag. validateSizes m c ad = Inr ()
            \<and> fst (auth m (fst (slice_array nonce s))
                      (subarray c 0 (int (length c) - int (mgm_tag_size m))) ad
                      (snd (slice_array nonce s))) = Inr tag
            \<and> tag \<noteq> subarray_from c (int (length c) - int (mgm_tag_size m))
          \<longrightarrow> open_mgm m nonce c ad s
                = (Inl InvalidAuthenticationTag,
                   (snd (slice_array nonce s))
                     [memoryOf (fst (slice_array nonce s)) := or_byte0 0x80 (s ! memoryOf nonce)]))
       \<and> (\<forall>pt. fst (open_mgm m nonce c ad s) = Inr pt
            \<longrightarrow> fst (auth m (fst (slice_array nonce s))
                        (subarray c 0 (int (length c) - int (mgm_tag_size m))) ad
                        (snd (slice_array nonce s)))
                = Inr (subarray_from c (int (length c) - int (mgm_tag_size m))))"
proof (cases nonce)
  case (Uint8Array a)
  with assms show ?thesis
    by (auto simp: open_mgm_eq auth_eq icn_store_Uint8Array Let_def split: sum.splits if_splits)
next
  case (Buffer a)
  with assms show ?thesis
    by (auto simp: open_mgm_eq auth_eq icn_store_Buffer Let_def split: sum.splits if_splits)
qed

theorem open_mgm_tag_mismatch_witness:
  "memoryOf (Uint8Array 0) < length [[0x81, 2, 3, 4, 5, 6, 7, 8 :: byte]]
   \<and> validateSizes \<lparr>mgm_tag_size = 8, mgm_encrypter = \<lambda>b. b, mgm_blockSize = 8,
                         mgm_max_size = 4294967295, mgm_r = 27\<rparr>
         [17, 34, 51, 68, 85, 102, 119, 136, 145, 89, 183, 41, 98, 86, 11, 14, 155] [9] = Inr ()
   \<and> fst (auth \<lparr>mgm_tag_size = 8, mgm_encrypter = \<lambda>b. b, mgm_blockSize = 8,
                     mgm_max_size = 4294967295, mgm_r = 27\<rparr>
            (Uint8Array 1) [17, 34, 51, 68, 85, 102, 119, 136, 145] [9]
            [[0x81, 2, 3, 4, 5, 6, 7, 8], [0x81, 2, 3, 4, 5, 6, 7, 8]])
       = Inr [89, 183, 41, 98, 86, 11, 14, 154]
   \<and> open_mgm \<lparr>mgm_tag_size = 8, mgm_encrypter = \<lambda>b. b, mgm_blockSize = 8,
                    mgm_max_size = 4294967295, mgm_r = 27\<rparr>
         (Uint8Array 0) [17, 34, 51, 68, 85, 102, 119, 136, 145, 89, 183, 41, 98, 86, 11, 14, 155] [9]
         [[0x81, 2, 3, 4, 5, 6, 7, 8]]
       = (Inl InvalidAuthenticationTag, [[0x81, 2, 3, 4, 5, 6, 7, 8], [0x81, 2, 3, 4, 5, 6, 7, 8]])"
proof -
  let ?m = "\<lparr>mgm_tag_size = 8, mgm_encrypter = \<lambda>b. b, mgm_blockSize = 8,
             mgm_max_size = 4294967295, mgm_r = 27\<rparr>"
  let ?s = "[[0x81, 2, 3, 4, 5, 6, 7, 8 :: byte]]"
  let ?c = "[17, 34, 51, 68, 85, 102, 119, 136, 145, 89, 183, 41, 98, 86, 11, 14, 155 :: byte]"
  have n: "memoryOf (Uint8Array 0) < length ?s" by simp
  have v: "validateSizes ?m ?c [9] = Inr ()" by (simp add: validateSizes_def)
  have ct: "subarray ?c 0 (int (length ?c) - int (mgm_tag_size ?m))
              = [17, 34, 51, 68, 85, 102, 119, 136, 145]"
    by (simp add: subarray_def relativeIndex_def)
  have te: "subarray_from ?c (int (length ?c) - int (mgm_tag_size ?m))
              = [89, 183, 41, 98, 86, 11, 14, 155]"
    by (simp add: subarray_from_def relativeIndex_def)
  have a: "fst (auth ?m (Uint8Array 1) [17, 34, 51, 68, 85, 102, 119, 136, 145] [9]
                 [[0x81, 2, 3, 4, 5, 6, 7, 8], [0x81, 2, 3, 4, 5, 6, 7, 8]])
             = Inr [89, 183, 41, 98, 86, 11, 14, 154]"
    by (simp add: auth_eq or_byte0_def auth_sum_example)
  have sc: "slice_array (Uint8Array 0) ?s
              = (Uint8Array 1, [[0x81, 2, 3, 4, 5, 6, 7, 8], [0x81, 2, 3, 4, 5, 6, 7, 8]])"
    by simp
  note inst = open_mgm_tag_mismatch[OF n, of ?m ?c "[9]", unfolded ct te sc fst_conv snd_conv]
  from inst v a
  have "open_mgm ?m (Uint8Array 0) ?c [9] ?s
          = (Inl InvalidAuthenticationTag,
             [[0x81, 2, 3, 4, 5, 6, 7, 8], [0x81, 2, 3, 4, 5, 6, 7, 8]]
               [memoryOf (Uint8Array 1) := or_byte0 0x80 (?s ! memoryOf (Uint8Array 0))])"
    by simp
  then show ?thesis using n v a by (simp add: or_byte0_def)
qed

subsection \<open>The nonce buffer\<close>

text \<open>
  For a nonce that is a plain \<^verbatim>\<open>Uint8Array\<close>, \<^verbatim>\<open>seal\<close> and \<^verbatim>\<open>open\<close> leave the caller's
  buffer as it was, whether they return or throw: the top bit is cleared and set on the copy
  that \<^verbatim>\<open>slice\<close> made. \<^verbatim>\<open>nonce_prepare\<close> returns new memory holding the nonce with its top
  bit cleared and leaves its argument unchanged.
\<close>

lemma nonce_buffer_unchanged:
  assumes "a < length s"
  shows "snd (seal m (Uint8Array a) p ad s) ! a = s ! a
       \<and> snd (open_mgm m (Uint8Array a) c ad s) ! a = s ! a
       \<and> snd (nonce_prepare (Uint8Array a) s) ! a = s ! a
       \<and> snd (nonce_prepare (Uint8Array a) s) ! memoryOf (fst (nonce_prepare (Uint8Array a) s))
           = and_byte0 0x7F (s ! a)
       \<and> memoryOf (fst (nonce_prepare (Uint8Array a) s)) \<noteq> a"
proof -
  have 1: "snd (seal m (Uint8Array a) p ad s) ! a = s ! a"
    using assms by (simp add: seal_eq icn_store_Uint8Array nth_append split: sum.splits)
  have 2: "snd (open_mgm m (Uint8Array a) c ad s) ! a = s ! a"
    using assms
    by (simp add: open_mgm_eq icn_store_Uint8Array Let_def nth_append split: sum.splits)
  have 3: "snd (nonce_prepare (Uint8Array a) s) ! a = s ! a"
    using assms by (simp add: nonce_prepare_def nth_append)
  have 4: "snd (nonce_prepare (Uint8Array a) s) ! memoryOf (fst (nonce_prepare (Uint8Array a) s))
             = and_byte0 0x7F (s ! a)"
    using assms by (simp add: nonce_prepare_def)
  have 5: "memoryOf (fst (nonce_prepare (Uint8Array a) s)) \<noteq> a"
    using assms by (simp add: nonce_prepare_def)
  from 1 2 3 4 5 show ?thesis by simp
qed

lemma nonce_prepare_example:
  "nonce_prepare (Uint8Array 0) [[0x81, 2, 3, 4, 5, 6, 7, 8]]
     = (Uint8Array 1, [[0x81, 2, 3, 4, 5, 6, 7, 8], [0x01, 2, 3, 4, 5, 6, 7, 8]])"
  by (simp add: nonce_prepare_def and_byte0_def)

text \<open>
  Claim C10. The claim asks that \<^verbatim>\<open>seal\<close>, \<^verbatim>\<open>open\<close> and \<^verbatim>\<open>nonce_prepare\<close> leave the
  caller's nonce buffer unchanged for every nonce. The code calls \<^verbatim>\<open>nonce.slice()\<close> to work
  on a copy, and for a nonce that is a Node \<^verbatim>\<open>Buffer\<close> this gives no copy but a view of the
  same memory, so the top bit is written into the caller's buffer. With the identity block
  function and block size 8: \<^verbatim>\<open>seal\<close> on the \<^verbatim>\<open>Buffer\<close> nonce 01 02 03 04 05 06 07 08 returns
  the sealed message and leaves the nonce as 81 02 03 04 05 06 07 08; \<^verbatim>\<open>open\<close> on the
  \<^verbatim>\<open>Buffer\<close> nonce 81 02 03 04 05 06 07 08 returns the plaintext and leaves the nonce as
  01 02 03 04 05 06 07 08, and so does \<^verbatim>\<open>nonce_prepare\<close>, whose result is the same memory.
  (For a plain \<^verbatim>\<open>Uint8Array\<close> nonce the claim holds: lemma \<open>nonce_buffer_unchanged\<close>.)
\<close>

theorem nonce_Buffer_modified:
  "seal \<lparr>mgm_tag_size = 8, mgm_encrypter = \<lambda>b. b, mgm_blockSize = 8,
         mgm_max_size = 4294967295, mgm_r = 27\<rparr>
     (Buffer 0) [0x10, 0x20, 0x30, 0x40, 0x50, 0x60, 0x70, 0x80, 0x90] [9]
     [[0x01, 2, 3, 4, 5, 6, 7, 8]]
   = (Inr [17, 34, 51, 68, 85, 102, 119, 136, 145, 89, 183, 41, 98, 86, 11, 14, 154],
      [[0x81, 2, 3, 4, 5, 6, 7, 8]])
   \<and> open_mgm \<lparr>mgm_tag_size = 8, mgm_encrypter = \<lambda>b. b, mgm_blockSize = 8,
                    mgm_max_size = 4294967295, mgm_r = 27\<rparr>
       (Buffer 0) [17, 34, 51, 68, 85, 102, 119, 136, 145, 89, 183, 41, 98, 86, 11, 14, 154] [9]
       [[0x81, 2, 3, 4, 5, 6, 7, 8]]
     = (Inr [0x10, 0x20, 0x30, 0x40, 0x50, 0x60, 0x70, 0x80, 0x90],
        [[0x01, 2, 3, 4, 5, 6, 7, 8]])
   \<and> nonce_prepare (Buffer 0) [[0x81, 2, 3, 4, 5, 6, 7, 8]]
     = (Buffer 0, [[0x01, 2, 3, 4, 5, 6, 7, 8]])"
proof -
  have "nonce_prepare (Buffer 0) [[0x81, 2, 3, 4, 5, 6, 7, 8]]
          = (Buffer 0, [[0x01, 2, 3, 4, 5, 6, 7, 8]])"
    by (simp add: nonce_prepare_def and_byte0_def)
  with seal_Buffer_example open_mgm_Buffer_example show ?thesis by simp
qed

section \<open>Properties of CTR-ACPKM and OMAC-ACPKM\<close>

lemma ctr_loop_no_rekey:
  assumes "\<And>c. i \<le> c \<Longrightarrow> c < n \<Longrightarrow> c \<noteq> 0 \<Longrightarrow> jsmod c (nat \<bar>ss\<bar>) \<noteq> Some 0"
  shows "ctr_loop encrypter blockSize iv h (Some a) ss n i ks
           = ctr_loop encrypter blockSize iv h None 0 n i ks"
  using assms
proof (induction "n - i" arbitrary: i ks)
  case 0
  then show ?case
    by (simp add: ctr_loop.simps[where ctr = i and n = n])
next
  case (Suc d)
  then have lt: "i < n" by simp
  have keep: "\<not> (i \<noteq> 0 \<and> jsmod i (nat \<bar>ss\<bar>) = Some 0)"
    using Suc.prems[of i] lt by auto
  have rec: "ctr_loop encrypter blockSize iv h (Some a) ss n (Suc i) ks'
           = ctr_loop encrypter blockSize iv h None 0 n (Suc i) ks'" for ks'
    using Suc.hyps(2) Suc.prems by (intro Suc.hyps(1)) auto
  show ?case
    using keep
    by (auto simp: ctr_loop.simps[where ctr = i and keystreamBlocks = ks and acpkm = "Some a"]
        ctr_loop.simps[where ctr = i and keystreamBlocks = ks and acpkm = None] lt rec
        Let_def split: sum.splits)
qed

lemma ctr_acpkm_no_rekey:
  assumes small: "sectionSize div blockSize < 2 ^ 31"
    and cover: "ceilDiv (length data) blockSize * blockSize \<le> sectionSize"
  shows "ctr_acpkm cipherClass encrypter sectionSize blockSize data iv
           = ctr encrypter blockSize data iv None"
proof -
  let ?n = "ceilDiv (length data) blockSize"
  let ?q = "sectionSize div blockSize"
  let ?ss = "toInt32 (int ?q)"
  have ss: "?ss = int ?q" using small by (intro toInt32_small) simp_all
  have nq: "?n \<le> ?q"
  proof (cases "blockSize = 0")
    case True
    then show ?thesis by (simp add: ceilDiv_def)
  next
    case False
    with cover show ?thesis by (simp add: less_eq_div_iff_mult_less_eq)
  qed
  have "jsmod c (nat \<bar>?ss\<bar>) \<noteq> Some 0" if "c < ?n" "c \<noteq> 0" for c
    using that nq by (simp add: ss jsmod_def)
  then have "ctr_loop encrypter blockSize iv h
               (Some \<lparr>acpkm_cipherClass = cipherClass, acpkm_sectionSize = sectionSize\<rparr>) ?ss ?n 0 []
           = ctr_loop encrypter blockSize iv h None 0 ?n 0 []" for h
    by (intro ctr_loop_no_rekey) simp
  then show ?thesis by (simp add: ctr_acpkm_def ctr_def Let_def)
qed

lemma upt_0_8: "[0..<8] = [0, 1, 2, 3, 4, 5, 6, 7]"
  by code_simp

lemma upt_0_4: "[0..<4] = [0, 1, 2, 3]"
  by code_simp

lemmas eval_ctr = upt_0_8 upt_0_4 ctr_acpkm_def ctr_def ctr_loop.simps halfBlock_def toInt32_def shiftLeft_def
  ceilDiv_def jsmod_def acpkmDerivation_def KEYSIZE_def xor_bytes_def concatBytes_def

text \<open>
  Claim C8. The claim asks that \<^verbatim>\<open>ctr_acpkm\<close> equals plain \<^verbatim>\<open>ctr\<close> for every section size
  that is a multiple of the block size and covers the data. Lemma \<open>ctr_acpkm_no_rekey\<close>
  proves it when \<^verbatim>\<open>sectionSize / blockSize\<close> is below \<open>2 ^ 31\<close>. Above, \<^verbatim>\<open>| 0\<close> wraps the
  quotient to 32 bits: with block size 8 and section size \<open>(2 ^ 32 + 1) * 8\<close> the code computes
  a section of one block and re-keys before the second block of a 16-byte message.
\<close>

theorem ctr_acpkm_rekeys_at_wrapped_section_size:
  "ctr_acpkm (\<lambda>key block. xor_bytes block key) (\<lambda>block. block) 34359738376 8
       [0, 0, 0, 0, 0, 0, 0, 0, 0, 0, 0, 0, 0, 0, 0, 0] [0, 0, 0, 0]
     = Inr [0, 0, 0, 0, 0, 0, 0, 0, 0x80, 0x81, 0x82, 0x83, 0x84, 0x85, 0x86, 0x86]
   \<and> ctr (\<lambda>block. block) 8 [0, 0, 0, 0, 0, 0, 0, 0, 0, 0, 0, 0, 0, 0, 0, 0] [0, 0, 0, 0] None
     = Inr [0, 0, 0, 0, 0, 0, 0, 0, 0, 0, 0, 0, 0, 0, 0, 1]
   \<and> 34359738376 mod 8 = (0::nat)
   \<and> ceilDiv (length [0, 0, 0, 0, 0, 0, 0, 0, 0, 0, 0, 0, 0, 0, 0, 0 :: byte]) 8 * 8 \<le> (34359738376::nat)"
  by (simp add: eval_ctr eval_utils Let_def cong: sum.case_cong_weak)

subsection \<open>The subkeys and the section count of MAC and OMAC-ACPKM\<close>

lemma omac_k2_high_bit:
  assumes "length k1 = blockSize" and "byte0 k1 AND 0x80 \<noteq> 0"
  shows "omac_k2 k1 blockSize = Inl (HexOddLength (2 * blockSize + 1))"
proof -
  have lo: "256 ^ blockSize \<le> 2 * from_be k1"
    using from_be_high_bit[OF assms(2)] assms(1) by simp
  have hi: "2 * from_be k1 < 16 * 256 ^ blockSize"
    using from_be_bound[of k1] assms(1) by simp
  have "numberToBytesBE (2 * from_be k1) (int blockSize) = Inl (HexOddLength (2 * blockSize + 1))"
    using lo hi by (rule numberToBytesBE_one_digit_over)
  then show ?thesis
    by (simp add: omac_k2_def bytesToNumberBE_from_be shiftLeft_def push_bit_eq_mult mult.commute)
qed

lemma omac_k2_low_bit:
  assumes "length k1 = blockSize" and "byte0 k1 AND 0x80 = 0"
  shows "omac_k2 k1 blockSize = numberToBytesBE (2 * from_be k1) (int blockSize)"
  using assms
  by (simp add: omac_k2_def bytesToNumberBE_from_be shiftLeft_def push_bit_eq_mult mult.commute
      split: sum.splits)

lemma xor_low_bits:
  fixes a r :: nat
  assumes "r < 2 ^ k"
  shows "2 ^ k * (a div 2 ^ k) \<le> a XOR r"
proof -
  have "drop_bit k (a XOR r) = drop_bit k a XOR drop_bit k r" by (simp add: drop_bit_xor)
  also have "drop_bit k r = 0" using assms by (simp add: drop_bit_eq_div)
  finally have "(a XOR r) div 2 ^ k = a div 2 ^ k" by (simp add: drop_bit_eq_div)
  then have "2 ^ k * (a div 2 ^ k) = 2 ^ k * ((a XOR r) div 2 ^ k)" by simp
  also have "\<dots> \<le> a XOR r" by simp
  finally show ?thesis .
qed

lemma macShift_high_bit:
  assumes "length data = blockSize" and "0 < blockSize" and "byte0 data AND 0x80 \<noteq> 0"
    and "xorLsb < 256"
  shows "macShift blockSize data xorLsb = Inl (HexOddLength (2 * blockSize + 1))"
proof -
  let ?v = "from_be data * 2"
  obtain j where j: "blockSize = Suc j" using assms(2) by (cases blockSize) auto
  have lo: "256 ^ blockSize \<le> ?v"
    using from_be_high_bit[OF assms(3)] assms(1) by (simp add: mult.commute)
  have "256 * 256 ^ j \<le> 256 * (?v div 256)"
  proof -
    from lo have "256 ^ j \<le> ?v div 256" unfolding j by simp
    then show ?thesis by simp
  qed
  also have "\<dots> \<le> ?v XOR xorLsb"
    using xor_low_bits[of xorLsb 8 ?v] assms(4) by simp
  finally have lo': "256 ^ blockSize \<le> ?v XOR xorLsb" by (simp add: j)
  have p: "(16::nat) * 256 ^ blockSize = 2 ^ (8 * blockSize + 4)"
    by (simp add: power_add power_mult)
  have "?v < 2 ^ (8 * blockSize + 4)"
    using from_be_bound[of data] assms(1) unfolding p[symmetric] by simp
  moreover have "xorLsb < 2 ^ (8 * blockSize + 4)"
  proof -
    have "(256::nat) ^ 1 \<le> 256 ^ blockSize" using assms(2) by (intro power_increasing) simp_all
    then have "(256::nat) \<le> 16 * 256 ^ blockSize" by simp
    with assms(4) show ?thesis unfolding p[symmetric] by simp
  qed
  ultimately have "?v XOR xorLsb < 2 ^ (8 * blockSize + 4)" by (rule xor_nat_less)
  then have hi': "?v XOR xorLsb < 16 * 256 ^ blockSize" unfolding p .
  have "numberToBytesBE (?v XOR xorLsb) (int blockSize) = Inl (HexOddLength (2 * blockSize + 1))"
    using lo' hi' by (rule numberToBytesBE_one_digit_over)
  then show ?thesis by (simp add: macShift_def bytesToNumberBE_from_be)
qed

lemma ceilDiv_le_omac_sections:
  assumes "0 < sectionSize"
  shows "ceilDiv n sectionSize \<le> omac_sections n sectionSize"
proof (cases "n mod sectionSize = 0")
  case True
  then have "sectionSize dvd n" by auto
  then obtain q where "n = sectionSize * q" ..
  then have q: "n = q * sectionSize" by (simp add: mult.commute)
  obtain j where j: "sectionSize = Suc j" using assms by (cases sectionSize) auto
  have "(q * Suc j + j) div Suc j = q + j div Suc j" by (rule div_mult_self3) simp
  then have "(q * sectionSize + sectionSize - 1) div sectionSize = q" by (simp add: j)
  moreover have "q \<le> q * sectionSize" using assms by simp
  ultimately show ?thesis
    using assms True by (simp add: ceilDiv_def omac_sections_def jsmod_def q)
next
  case False
  have "(n + sectionSize - 1) div sectionSize \<le> (n * sectionSize + sectionSize) div sectionSize"
    using assms by (intro div_le_mono) (cases sectionSize, auto)
  also have "\<dots> = n + 1" using assms by simp
  finally show ?thesis
    using assms False by (simp add: ceilDiv_def omac_sections_def jsmod_def)
qed

lemma ceilDiv_less_omac_sections:
  assumes "1 < sectionSize" and "0 < n"
  shows "ceilDiv n sectionSize < omac_sections n sectionSize"
proof (cases "n mod sectionSize = 0")
  case True
  then have "sectionSize dvd n" by auto
  then obtain q where "n = sectionSize * q" ..
  then have q: "n = q * sectionSize" by (simp add: mult.commute)
  obtain j where j: "sectionSize = Suc j" using assms(1) by (cases sectionSize) auto
  have "(q * Suc j + j) div Suc j = q + j div Suc j" by (rule div_mult_self3) simp
  then have "(q * sectionSize + sectionSize - 1) div sectionSize = q" by (simp add: j)
  moreover have "q < q * sectionSize" using assms q by simp
  ultimately show ?thesis
    using assms True by (simp add: ceilDiv_def omac_sections_def jsmod_def q)
next
  case False
  have "n + sectionSize - 1 < (n + 1) * sectionSize"
  proof -
    have "n * 1 \<le> n * sectionSize" using assms(1) by (intro mult_le_mono2) simp
    then have b: "n + sectionSize \<le> (n + 1) * sectionSize" by (simp add: algebra_simps)
    have a: "n + sectionSize - 1 < n + sectionSize" using assms(2) by simp
    from a b show ?thesis by (rule less_le_trans)
  qed
  then have "(n + sectionSize - 1) div sectionSize < n + 1"
    using assms(1) by (simp add: div_less_iff_less_mult)
  then show ?thesis
    using assms False by (simp add: ceilDiv_def omac_sections_def jsmod_def)
qed

lemma macKs_high_bit:
  assumes "length (encrypter (newUint8Array blockSize)) = blockSize" and "0 < blockSize"
    and "byte0 (encrypter (newUint8Array blockSize)) AND 0x80 \<noteq> 0"
  shows "macKs encrypter blockSize = Inl (HexOddLength (2 * blockSize + 1))"
proof -
  have "macShift blockSize (encrypter (newUint8Array blockSize))
          (if blockSize = 16 then Rb128 else Rb64) = Inl (HexOddLength (2 * blockSize + 1))"
    using assms by (intro macShift_high_bit) (simp_all add: Rb128_def Rb64_def)
  then show ?thesis using assms(3) by (simp add: macKs_def Let_def)
qed

text \<open>
  Claim C5. The claim asks that \<open>k2\<close> is \<open>k1\<close> shifted left by one bit, XOR \<open>Rb\<close>,
  truncated to the block size, when the high bit of \<open>k1\<close> is set. The code does not
  compute it: the shifted number needs one hexadecimal digit more than the block holds and
  \<^verbatim>\<open>numberToBytesBE\<close> throws, in \<^verbatim>\<open>omac_acpkm_master\<close> and in \<^verbatim>\<open>macShift\<close> alike.
  With the high bit clear both give \<open>k1\<close> shifted left by one bit. Lemmas
  \<open>omac_k2_high_bit\<close> and \<open>macShift_high_bit\<close> show the same for every block-sized \<open>k1\<close>
  with the high bit set; the theorem states it at concrete inputs.
\<close>

theorem omac_k2_throws_at_high_bit:
  "omac_k2 [0x80, 0, 0, 0, 0, 0, 0, 0] 8 = Inl (HexOddLength 17)
   \<and> macShift 8 [0x80, 0, 0, 0, 0, 0, 0, 0] Rb64 = Inl (HexOddLength 17)
   \<and> omac_k2 [0x40, 0, 0, 0, 0, 0, 0, 0] 8 = Inr [0x80, 0, 0, 0, 0, 0, 0, 0]
   \<and> macShift 8 [0x40, 0, 0, 0, 0, 0, 0, 0] 0 = Inr [0x80, 0, 0, 0, 0, 0, 0, 0]"
  by (simp add: omac_k2_def macShift_def Rb64_def shiftLeft_def byte0_def subarray_from_def
      relativeIndex_def eval_utils cong: sum.case_cong_weak)

text \<open>
  Claim C6. The claim asks for key material for \<open>ceil(|data| / sectionSize)\<close> sections. The
  code starts the count at the message length and adds one when the length is not a
  multiple of the section size; it never divides by the section size. For 32 bytes of
  data, section size 16 and block size 16 it asks for 1536 bytes, not 96. By lemma
  \<open>ceilDiv_less_omac_sections\<close> the count of the code is above the ceiling for every
  non-empty message and every section size above 1, and never below it
  (\<open>ceilDiv_le_omac_sections\<close>).
\<close>

theorem omac_sections_not_ceiling:
  "omac_keyMaterialLength 32 16 16 = 1536 \<and> (KEYSIZE + 16) * ceilDiv 32 16 = 96"
  by (simp add: omac_keyMaterialLength_def omac_sections_def jsmod_def KEYSIZE_def ceilDiv_def)

end
